theory Spec2Isabelle
  imports Complex_Main "HOL-Library.Log_Nat" "HOL-Library.Product_Lexorder" "HOL-Library.AList"
    "HOL-Library.Sublist"
begin

section \<open>Python values used by showdown.py\<close>

text \<open>
  Exceptions that the modelled functions can raise. A result of type \<open>error + 'a\<close> is
  \<open>Inl e\<close> when the Python code raises \<open>e\<close> and \<open>Inr v\<close> when it returns \<open>v\<close>.
\<close>

datatype error = OverflowError | ZeroDivisionError | EOFError

subsection \<open>Binary floating point\<close>

text \<open>
  A Python \<open>float\<close> is an IEEE 754 binary64 number. A finite one is modelled by its exact
  value, a rational; \<open>fl q\<close> is the double nearest to the rational \<open>q\<close> (53 significant
  bits, ties to the even significand, gradual underflow below \<open>2 powi (-1022)\<close>), and
  \<open>None\<close> when that rounding leaves the finite range, where Python either raises
  OverflowError at once or carries an infinity until \<open>math.floor\<close> raises it.
\<close>

type_synonym float = rat

definition rnd_even :: "rat \<Rightarrow> int" where
  "rnd_even x = (let f = \<lfloor>x\<rfloor>; r = x - of_int f in
     if r < 1/2 then f else if 1/2 < r then f + 1 else if even f then f else f + 1)"

text \<open>\<open>expo q\<close> is the binary exponent of \<open>q \<noteq> 0\<close>: \<open>2 powi expo q \<le> \<bar>q\<bar> < 2 powi (expo q + 1)\<close>.\<close>

definition expo :: "rat \<Rightarrow> int" where
  "expo q = (if 1 \<le> \<bar>q\<bar> then int (floorlog 2 (nat \<lfloor>\<bar>q\<bar>\<rfloor>)) - 1
             else - int (floorlog 2 (nat (\<lceil>1 / \<bar>q\<bar>\<rceil> - 1))))"

definition ulp :: "rat \<Rightarrow> rat" where
  "ulp q = 2 powi (max (expo q) (- 1022) - 52)"

definition fl :: "rat \<Rightarrow> float option" where
  "fl q = (if q = 0 then Some 0
           else let r = of_int (rnd_even (q / ulp q)) * ulp q
                in if 2 ^ 1024 \<le> \<bar>r\<bar> then None else Some r)"

text \<open>The float literals of the source: \<open>0.9\<close>, \<open>1.0\<close>, \<open>1.1\<close> and \<open>1e-9\<close>.\<close>

definition float_0_9 :: float where
  "float_0_9 = 8106479329266893 / 9007199254740992"

definition float_1_0 :: float where
  "float_1_0 = 1"

definition float_1_1 :: float where
  "float_1_1 = 2476979795053773 / 2251799813685248"

definition float_1e_9 :: float where
  "float_1e_9 = 4835703278458517 / 4835703278458516698824704"

text \<open>\<open>a / b\<close> on two ints: the correctly rounded quotient, or an exception.\<close>

definition true_div :: "int \<Rightarrow> int \<Rightarrow> error + float" where
  "true_div a b =
     (if b = 0 then Inl ZeroDivisionError
      else case fl (of_int a / of_int b) of None \<Rightarrow> Inl OverflowError | Some r \<Rightarrow> Inr r)"

text \<open>The conversion of an int operand in \<open>int * float\<close>.\<close>

definition int_to_float :: "int \<Rightarrow> error + float" where
  "int_to_float n = (case fl (of_int n) of None \<Rightarrow> Inl OverflowError | Some r \<Rightarrow> Inr r)"

text \<open>Float product and sum; \<open>None\<close> is an infinite result, which a later sum keeps.\<close>

definition float_mul :: "float \<Rightarrow> float \<Rightarrow> float option" where
  "float_mul a b = fl (a * b)"

definition float_add :: "float option \<Rightarrow> float \<Rightarrow> float option" where
  "float_add a b = (case a of None \<Rightarrow> None | Some x \<Rightarrow> fl (x + b))"

text \<open>\<open>math.floor\<close> of a float: an int, or OverflowError on an infinity.\<close>

definition math_floor :: "float option \<Rightarrow> error + int" where
  "math_floor a = (case a of None \<Rightarrow> Inl OverflowError | Some x \<Rightarrow> Inr \<lfloor>x\<rfloor>)"

section \<open>Stat math\<close>

text \<open>
  \<^verbatim>\<open>calc_stat(base, iv, ev, level, nature_mult, is_hp)\<close>: both branches floor the float
  quotient \<open>((2 * base + iv + ev // 4) * level) / 100\<close>; the non-HP branch multiplies
  \<open>inner\<close> by the nature multiplier, adds \<open>1e-9\<close> and floors again.
\<close>

definition calc_stat :: "int \<Rightarrow> int \<Rightarrow> int \<Rightarrow> int \<Rightarrow> float \<Rightarrow> bool \<Rightarrow> error + int" where
  "calc_stat base iv ev level nature_mult is_hp =
     (case true_div ((2 * base + iv + ev div 4) * level) 100 of
        Inl e \<Rightarrow> Inl e
      | Inr q \<Rightarrow>
          if is_hp then Inr (\<lfloor>q\<rfloor> + level + 10)
          else let inner = \<lfloor>q\<rfloor> + 5 in
            (case int_to_float inner of
               Inl e \<Rightarrow> Inl e
             | Inr x \<Rightarrow> math_floor (float_add (float_mul x nature_mult) float_1e_9)))"

text \<open>
  The formula of the specification in exact rational arithmetic, without the tolerance:
  \<open>X = 2 * base + iv + floor(ev / 4)\<close>, \<open>raw = floor(X * level / 100)\<close>, then
  \<open>raw + level + 10\<close> for HP and \<open>floor((raw + 5) * multiplier)\<close> otherwise.
\<close>

definition exact_stat :: "int \<Rightarrow> int \<Rightarrow> int \<Rightarrow> int \<Rightarrow> rat \<Rightarrow> bool \<Rightarrow> int" where
  "exact_stat base iv ev level multiplier is_hp =
     (let X = 2 * base + iv + ev div 4;
          raw = \<lfloor>rat_of_int (X * level) / 100\<rfloor>
      in if is_hp then raw + level + 10 else \<lfloor>of_int (raw + 5) * multiplier\<rfloor>)"

subsection \<open>Natures\<close>

definition NATURE_EFFECTS :: "(string \<times> string \<times> string) list" where
  "NATURE_EFFECTS =
    [(''Lonely'', ''atk'', ''def''), (''Brave'', ''atk'', ''spe''),
     (''Adamant'', ''atk'', ''spa''), (''Naughty'', ''atk'', ''spd''),
     (''Bold'', ''def'', ''atk''), (''Relaxed'', ''def'', ''spe''),
     (''Impish'', ''def'', ''spa''), (''Lax'', ''def'', ''spd''),
     (''Modest'', ''spa'', ''atk''), (''Mild'', ''spa'', ''def''),
     (''Quiet'', ''spa'', ''spe''), (''Rash'', ''spa'', ''spd''),
     (''Calm'', ''spd'', ''atk''), (''Gentle'', ''spd'', ''def''),
     (''Sassy'', ''spd'', ''spe''), (''Careful'', ''spd'', ''spa''),
     (''Timid'', ''spe'', ''atk''), (''Hasty'', ''spe'', ''def''),
     (''Jolly'', ''spe'', ''spa''), (''Naive'', ''spe'', ''spd'')]"

definition STAT_KEYS :: "string list" where
  "STAT_KEYS = [''hp'', ''atk'', ''def'', ''spa'', ''spd'', ''spe'']"

text \<open>
  \<^verbatim>\<open>get_nature_multiplier(nature, stat_key)\<close>; \<open>nature\<close> is an \<open>Optional[str]\<close>, and
  \<open>not nature\<close> holds for \<open>None\<close> and for the empty string.
\<close>

definition get_nature_multiplier :: "string option \<Rightarrow> string \<Rightarrow> float" where
  "get_nature_multiplier nature stat_key =
     (case nature of
        None \<Rightarrow> float_1_0
      | Some n \<Rightarrow>
          if n = [] then float_1_0
          else (case map_of NATURE_EFFECTS n of
                  None \<Rightarrow> float_1_0
                | Some (inc, dec) \<Rightarrow>
                    if stat_key = inc then float_1_1
                    else if stat_key = dec then float_0_9
                    else float_1_0))"

subsection \<open>Reverse calculation\<close>

text \<open>
  \<^verbatim>\<open>reverse_calc_iv_ev_for_stat\<close>: the two nested \<open>for\<close> loops visit the pairs of
  \<open>range(0, max_iv + 1)\<close> and \<open>range(0, 253, 4)\<close> in the order of \<open>List.product\<close>;
  \<open>scan_pairs\<close> is the loop body, with the list \<open>solutions\<close> as accumulator and the first
  exception of \<open>calc_stat\<close> ending the scan. The result is the head of the list sorted by
  the key \<open>(-iv, ev)\<close>, or \<open>None\<close> when nothing matched.
\<close>

definition ev_range :: "int list" where
  "ev_range = map (\<lambda>k. 4 * k) [0..63]"

fun scan_pairs ::
  "(int \<Rightarrow> int \<Rightarrow> error + int) \<Rightarrow> int \<Rightarrow> (int \<times> int) list \<Rightarrow> (int \<times> int) list
     \<Rightarrow> error + (int \<times> int) list" where
  "scan_pairs f observed [] solutions = Inr solutions"
| "scan_pairs f observed ((iv, ev) # rest) solutions =
     (case f iv ev of
        Inl e \<Rightarrow> Inl e
      | Inr s \<Rightarrow> scan_pairs f observed rest
                  (if s = observed then solutions @ [(iv, ev)] else solutions))"

definition reverse_calc_iv_ev_for_stat ::
  "int \<Rightarrow> int \<Rightarrow> int \<Rightarrow> float \<Rightarrow> bool \<Rightarrow> int \<Rightarrow> error + (int \<times> int) option" where
  "reverse_calc_iv_ev_for_stat observed base level nature_mult is_hp max_iv =
     (case scan_pairs (\<lambda>iv ev. calc_stat base iv ev level nature_mult is_hp) observed
             (List.product [0..max_iv] ev_range) [] of
        Inl e \<Rightarrow> Inl e
      | Inr solutions \<Rightarrow>
          if solutions = [] then Inr None
          else Inr (Some (hd (sort_key (\<lambda>(iv, ev). (- iv, ev)) solutions))))"

text \<open>
  The branch of \<^verbatim>\<open>generate_set\<close> that assumes the IV: its loop over \<open>range(0, 253, 4)\<close>
  stops at the first EV whose stat equals the observed one; \<open>found_ev\<close> is the result.
\<close>

fun find_ev :: "(int \<Rightarrow> error + int) \<Rightarrow> int \<Rightarrow> int list \<Rightarrow> error + int option" where
  "find_ev f obs_val [] = Inr None"
| "find_ev f obs_val (ev # rest) =
     (case f ev of
        Inl e \<Rightarrow> Inl e
      | Inr stat_calc \<Rightarrow> if stat_calc = obs_val then Inr (Some ev) else find_ev f obs_val rest)"

definition assumed_iv_ev ::
  "int \<Rightarrow> int \<Rightarrow> int \<Rightarrow> int \<Rightarrow> float \<Rightarrow> bool \<Rightarrow> error + int option" where
  "assumed_iv_ev obs_val base iv_assumed level nm is_hp =
     find_ev (\<lambda>ev. calc_stat base iv_assumed ev level nm is_hp) obs_val ev_range"

section \<open>EV budget\<close>

text \<open>
  A \<open>Dict[str, int]\<close> is an association list in insertion order, which is the order
  \<open>evs.items()\<close> is scanned in. The inner \<open>for\<close> loop of \<^verbatim>\<open>clamp_ev_distribution\<close>
  is \<open>find_max\<close>, started at \<open>(None, 0)\<close>; the \<open>while\<close> loop is \<open>clamp_loop\<close>, which
  carries the dict and the running \<open>total\<close>. The key \<open>stat_to_reduce\<close> comes from the items
  of \<open>evs\<close>, so the lookup \<open>evs[stat_to_reduce]\<close> finds it.
\<close>

fun find_max :: "(string \<times> int) list \<Rightarrow> string option \<times> int \<Rightarrow> string option \<times> int" where
  "find_max [] acc = acc"
| "find_max ((s, v) # ev_list) (stat_to_reduce, max_ev) =
     (if max_ev < v then find_max ev_list (Some s, v)
      else find_max ev_list (stat_to_reduce, max_ev))"

function clamp_loop :: "(string \<times> int) list \<Rightarrow> int \<Rightarrow> (string \<times> int) list" where
  "clamp_loop evs tot =
     (if 510 < tot then
        (case find_max evs (None, 0) of
           (None, max_ev) \<Rightarrow> evs
         | (Some stat_to_reduce, max_ev) \<Rightarrow>
             if max_ev \<le> 0 then evs
             else clamp_loop
                    (AList.update stat_to_reduce (max 0 (the (map_of evs stat_to_reduce) - 4)) evs)
                    (tot - 4))
      else evs)"
  by pat_completeness auto
termination
  by (relation "measure (\<lambda>(evs, tot). nat (tot - 510))") auto

declare clamp_loop.simps [simp del]

definition clamp_ev_distribution :: "(string \<times> int) list \<Rightarrow> (string \<times> int) list" where
  "clamp_ev_distribution evs =
     (let tot = sum_list (map snd evs)
      in if tot \<le> 510 then evs else clamp_loop evs tot)"

text \<open>Invariants of the loop, used in the proofs below.\<close>

definition ev_ok :: "(string \<times> int) list \<Rightarrow> bool" where
  "ev_ok evs \<longleftrightarrow> distinct (map fst evs) \<and> (\<forall>(k, v) \<in> set evs. 0 \<le> v \<and> 4 dvd v)"

definition ev_below :: "(string \<times> int) list \<Rightarrow> (string \<times> int) list \<Rightarrow> bool" where
  "ev_below out evs \<longleftrightarrow> map fst out = map fst evs \<and>
     (\<forall>k v. map_of evs k = Some v \<longrightarrow> (\<exists>v'. map_of out k = Some v' \<and> v' \<le> v))"

section \<open>Validation and autocorrect\<close>

text \<open>
  A Python \<open>str\<close> is a sequence of Unicode code points: a list over a type \<open>'c\<close> of code
  points. The \<open>str\<close> methods that \<^verbatim>\<open>validate_input\<close> calls are builtins of the
  language, and they follow the Unicode tables (\<open>strip\<close> removes U+00A0, \<open>lower\<close> maps
  U+00C9 to U+00E9, \<open>title\<close> turns U+00DF into the two letters \<open>Ss\<close>). They are the fields of
  the record \<open>str_methods\<close>: \<open>s.strip()\<close>, \<open>s.lower()\<close>, \<open>s.replace("_", " ")\<close>,
  \<open>s.title()\<close> and \<open>s.startswith("y")\<close>. \<open>validate_input\<close> is defined for any such methods,
  and what is proved of it below holds for all of them.
\<close>

record 'c str_methods =
  py_strip :: "'c list \<Rightarrow> 'c list"
  py_lower :: "'c list \<Rightarrow> 'c list"
  py_replace_underscores :: "'c list \<Rightarrow> 'c list"
  py_title :: "'c list \<Rightarrow> 'c list"
  py_startswith_y :: "'c list \<Rightarrow> bool"

text \<open>\<^verbatim>\<open>title_case_showdown(s)\<close> is \<open>s.strip().replace("_", " ").title()\<close>.\<close>

definition title_case_showdown :: "'c str_methods \<Rightarrow> 'c list \<Rightarrow> 'c list" where
  "title_case_showdown M s = py_title M (py_replace_underscores M (py_strip M s))"

text \<open>\<open>contains v x\<close> is Python's \<open>x in v\<close> on strings.\<close>

fun contains :: "'c list \<Rightarrow> 'c list \<Rightarrow> bool" where
  "contains [] x = (x = [])"
| "contains (c # cs) x = (prefix x (c # cs) \<or> contains cs x)"

text \<open>
  The prompts of mode 1 read one line each from the user; \<open>answers\<close> is what remains to be
  read, and reading past its end raises EOFError. The first prompt offers \<open>close[0]\<close>, the
  following ones \<open>close[1:]\<close> in order; an answer accepts when, trimmed and lower-cased, it
  starts with \<open>y\<close>.
\<close>

fun ask_suggestions ::
  "'c str_methods \<Rightarrow> 'c list list \<Rightarrow> 'c list list \<Rightarrow> 'c list \<Rightarrow> error + 'c list" where
  "ask_suggestions M [] answers u = Inr u"
| "ask_suggestions M (s # close) [] u = Inl EOFError"
| "ask_suggestions M (s # close) (ans # answers) u =
     (if py_startswith_y M (py_lower M (py_strip M ans)) then Inr s
      else ask_suggestions M close answers u)"

text \<open>
  \<^verbatim>\<open>validate_input(user_input, valid_list, autocorrect_mode)\<close>. The library call
  \<open>difflib.get_close_matches(t, valid_list, n=3, cutoff=0.65)\<close> is the parameter
  \<open>get_close_matches\<close>; \<open>low_map\<close> is the dict comprehension, in which a later entry of
  \<open>valid_list\<close> replaces an earlier one with the same lower-cased key.
\<close>

definition validate_input ::
  "'c str_methods \<Rightarrow> ('c list \<Rightarrow> 'c list list \<Rightarrow> 'c list list) \<Rightarrow> 'c list \<Rightarrow> 'c list list
     \<Rightarrow> int \<Rightarrow> 'c list list \<Rightarrow> error + 'c list" where
  "validate_input M get_close_matches user_input valid_list autocorrect_mode answers =
     (if user_input = [] then Inr user_input
      else
        let u = py_strip M user_input;
            u_norm = py_strip M (py_replace_underscores M u);
            low_map = fold (\<lambda>v m. m(py_lower M v \<mapsto> v)) valid_list Map.empty
        in case low_map (py_lower M u_norm) of
             Some v \<Rightarrow> Inr v
           | None \<Rightarrow>
               let t = title_case_showdown M u_norm in
               if t \<in> set valid_list then Inr t
               else
                 let fuzzy = get_close_matches t valid_list;
                     close = (if fuzzy = []
                              then take 3 (filter (\<lambda>v. contains (py_lower M v)
                                                    (py_lower M u_norm)) valid_list)
                              else fuzzy)
                 in if close = [] \<or> autocorrect_mode = 3 then Inr u
                    else if autocorrect_mode = 2 then Inr (hd close)
                    else ask_suggestions M close answers u)"

subsection \<open>The methods on ASCII strings\<close>

text \<open>
  On strings whose code points are all below 128 the methods are these functions on
  \<open>string\<close>: whitespace is 9 to 13, 28 to 31 and 32, and the cased characters are the 52
  letters. \<open>ascii_methods\<close> serves to run \<open>validate_input\<close> on such strings; on other code
  points it is not Python's behaviour.
\<close>

definition ascii_isspace :: "char \<Rightarrow> bool" where
  "ascii_isspace c \<longleftrightarrow>
     (let n = (of_char c :: nat) in (9 \<le> n \<and> n \<le> 13) \<or> (28 \<le> n \<and> n \<le> 32))"

definition ascii_iscased :: "char \<Rightarrow> bool" where
  "ascii_iscased c \<longleftrightarrow>
     (let n = (of_char c :: nat) in (65 \<le> n \<and> n \<le> 90) \<or> (97 \<le> n \<and> n \<le> 122))"

definition ascii_lower_char :: "char \<Rightarrow> char" where
  "ascii_lower_char c =
     (let n = (of_char c :: nat) in if 65 \<le> n \<and> n \<le> 90 then char_of (n + 32) else c)"

definition ascii_upper_char :: "char \<Rightarrow> char" where
  "ascii_upper_char c =
     (let n = (of_char c :: nat) in if 97 \<le> n \<and> n \<le> 122 then char_of (n - 32) else c)"

definition ascii_strip :: "string \<Rightarrow> string" where
  "ascii_strip s = rev (dropWhile ascii_isspace (rev (dropWhile ascii_isspace s)))"

definition ascii_lower :: "string \<Rightarrow> string" where
  "ascii_lower s = map ascii_lower_char s"

definition ascii_replace_underscores :: "string \<Rightarrow> string" where
  "ascii_replace_underscores s = map (\<lambda>c. if c = CHR ''_'' then CHR '' '' else c) s"

fun ascii_title_from :: "bool \<Rightarrow> string \<Rightarrow> string" where
  "ascii_title_from previous_is_cased [] = []"
| "ascii_title_from previous_is_cased (c # cs) =
     (if previous_is_cased then ascii_lower_char c else ascii_upper_char c)
       # ascii_title_from (ascii_iscased c) cs"

definition ascii_title :: "string \<Rightarrow> string" where
  "ascii_title s = ascii_title_from False s"

definition ascii_startswith_y :: "string \<Rightarrow> bool" where
  "ascii_startswith_y s = (case s of [] \<Rightarrow> False | c # cs \<Rightarrow> c = CHR ''y'')"

definition ascii_methods :: "char str_methods" where
  "ascii_methods =
     \<lparr>py_strip = ascii_strip, py_lower = ascii_lower,
      py_replace_underscores = ascii_replace_underscores, py_title = ascii_title,
      py_startswith_y = ascii_startswith_y\<rparr>"

section \<open>Properties\<close>

subsection \<open>Rounding to a double\<close>

lemma rnd_even_cases: "rnd_even x = \<lfloor>x\<rfloor> \<or> rnd_even x = \<lfloor>x\<rfloor> + 1"
  by (simp add: rnd_even_def Let_def)

lemma rnd_even_err: "\<bar>of_int (rnd_even x) - x\<bar> \<le> 1 / 2"
proof -
  have "of_int \<lfloor>x\<rfloor> \<le> x" "x < of_int \<lfloor>x\<rfloor> + 1" by linarith+
  then show ?thesis by (auto simp: rnd_even_def Let_def)
qed

lemma rnd_even_of_int: "rnd_even (of_int k) = k"
  by (simp add: rnd_even_def)

lemma rnd_even_ge: "of_int k \<le> x \<Longrightarrow> k \<le> rnd_even x"
proof -
  assume "of_int k \<le> x"
  then have "k \<le> \<lfloor>x\<rfloor>" by (simp add: le_floor_iff)
  with rnd_even_cases [of x] show ?thesis by auto
qed

lemma rnd_even_le: "x \<le> of_int k \<Longrightarrow> rnd_even x \<le> k"
proof (cases "x = of_int k")
  case True
  then show ?thesis by (simp add: rnd_even_of_int)
next
  case False
  assume "x \<le> of_int k"
  with False have "x < of_int k" by simp
  then have "\<lfloor>x\<rfloor> < k" by (simp add: floor_less_iff)
  with rnd_even_cases [of x] show ?thesis by auto
qed

lemma expo_bounds_ge1:
  assumes "1 \<le> \<bar>q\<bar>"
  shows "2 powi expo q \<le> \<bar>q\<bar>" and "\<bar>q\<bar> < 2 powi (expo q + 1)"
proof -
  let ?m = "nat \<lfloor>\<bar>q\<bar>\<rfloor>"
  let ?k = "floorlog 2 ?m"
  from assms have fl1: "1 \<le> \<lfloor>\<bar>q\<bar>\<rfloor>" by (simp add: le_floor_iff)
  then have m: "0 < ?m" by simp
  from floorlog_bounds [OF m, of 2] have b: "2 ^ (?k - 1) \<le> ?m" "?m < 2 ^ ?k" by simp_all
  have k: "1 \<le> ?k" using m by (simp add: floorlog_def)
  have e: "expo q = int ?k - 1" using assms by (simp add: expo_def)
  have e1: "(2::rat) powi (expo q) = 2 ^ (?k - 1)"
    using k by (simp add: e power_int_def nat_diff_distrib')
  have e2: "(2::rat) powi (expo q + 1) = 2 ^ ?k" by (simp add: e)
  have mq: "rat_of_nat ?m = of_int \<lfloor>\<bar>q\<bar>\<rfloor>" using fl1 by simp
  have "(2::rat) ^ (?k - 1) \<le> rat_of_nat ?m" using b(1) by (metis of_nat_le_iff of_nat_numeral of_nat_power)
  also have "\<dots> \<le> \<bar>q\<bar>" unfolding mq by linarith
  finally show "2 powi expo q \<le> \<bar>q\<bar>" by (simp add: e1)
  from b(2) have "Suc ?m \<le> 2 ^ ?k" by (rule Suc_leI)
  then have "rat_of_nat (?m + 1) \<le> 2 ^ ?k"
    by (metis Suc_eq_plus1 of_nat_le_iff of_nat_numeral of_nat_power)
  moreover have "\<bar>q\<bar> < rat_of_nat (?m + 1)" using mq by (simp only: of_nat_add of_nat_1) linarith
  ultimately show "\<bar>q\<bar> < 2 powi (expo q + 1)" by (simp add: e2)
qed

lemma expo_bounds_lt1:
  assumes "q \<noteq> 0" and "\<bar>q\<bar> < 1"
  shows "2 powi expo q \<le> \<bar>q\<bar>" and "\<bar>q\<bar> < 2 powi (expo q + 1)"
proof -
  let ?x = "1 / \<bar>q\<bar>"
  let ?m = "nat (\<lceil>?x\<rceil> - 1)"
  let ?k = "floorlog 2 ?m"
  from assms have qpos: "0 < \<bar>q\<bar>" by simp
  with assms have x1: "1 < ?x" by simp
  then have c2: "2 \<le> \<lceil>?x\<rceil>" by (simp add: less_ceiling_iff le_less) linarith
  then have m: "0 < ?m" by simp
  from floorlog_bounds [OF m, of 2] have b: "2 ^ (?k - 1) \<le> ?m" "?m < 2 ^ ?k" by simp_all
  have k: "1 \<le> ?k" using m by (simp add: floorlog_def)
  have e: "expo q = - int ?k" using assms by (simp add: expo_def)
  have "0 \<le> \<lceil>?x\<rceil> - 1" using c2 by linarith
  then have "rat_of_nat ?m = of_int (\<lceil>?x\<rceil> - 1)" by (rule of_nat_nat)
  then have mq: "rat_of_nat ?m = of_int \<lceil>?x\<rceil> - 1" by (simp only: of_int_diff of_int_1)
  have "rat_of_nat (?m + 1) \<le> 2 ^ ?k"
    using b(2) by (metis Suc_eq_plus1 Suc_leI of_nat_le_iff of_nat_numeral of_nat_power)
  then have "of_int \<lceil>?x\<rceil> \<le> (2::rat) ^ ?k" using mq by simp
  moreover have "?x \<le> of_int \<lceil>?x\<rceil>" by linarith
  ultimately have "?x \<le> 2 ^ ?k" by linarith
  then have "1 \<le> 2 ^ ?k * \<bar>q\<bar>" using qpos by (simp add: field_simps)
  then have "1 / 2 ^ ?k \<le> \<bar>q\<bar>" by (simp add: field_simps)
  then show "2 powi expo q \<le> \<bar>q\<bar>" by (simp add: e power_int_minus_divide)
  have "(2::rat) ^ (?k - 1) \<le> rat_of_nat ?m"
    using b(1) by (metis of_nat_le_iff of_nat_numeral of_nat_power)
  also have "\<dots> < ?x" unfolding mq by linarith
  finally have "2 ^ (?k - 1) * \<bar>q\<bar> < 1" using qpos by (simp add: field_simps)
  then have "\<bar>q\<bar> < 1 / 2 ^ (?k - 1)" by (simp add: field_simps)
  moreover have "(2::rat) powi (expo q + 1) = 1 / 2 ^ (?k - 1)"
  proof -
    have "expo q + 1 = - int (?k - 1)" using k e by simp
    then show ?thesis by (simp only: power_int_minus_divide power_int_of_nat)
  qed
  ultimately show "\<bar>q\<bar> < 2 powi (expo q + 1)" by simp
qed

lemma expo_bounds:
  assumes "q \<noteq> 0"
  shows "2 powi expo q \<le> \<bar>q\<bar>" and "\<bar>q\<bar> < 2 powi (expo q + 1)"
  using assms expo_bounds_ge1 [of q] expo_bounds_lt1 [of q] by (cases "1 \<le> \<bar>q\<bar>"; simp)+

lemma expo_unique:
  assumes "2 powi e \<le> \<bar>q\<bar>" and "\<bar>q\<bar> < 2 powi (e + 1)"
  shows "expo q = e"
proof -
  have "(0::rat) < 2 powi e" by simp
  with assms(1) have "0 < \<bar>q\<bar>" by linarith
  then have q: "q \<noteq> 0" by simp
  note b = expo_bounds [OF q]
  have "(2::rat) powi e < 2 powi (expo q + 1)" using assms(1) b(2) by simp
  then have "e < expo q + 1"
    by (metis not_less one_le_numeral power_int_increasing)
  moreover have "(2::rat) powi (expo q) < 2 powi (e + 1)" using assms(2) b(1) by simp
  then have "expo q < e + 1"
    by (metis not_less one_le_numeral power_int_increasing)
  ultimately show ?thesis by simp
qed


lemma expo_lower:
  assumes "q \<noteq> 0" and "2 powi a \<le> \<bar>q\<bar>"
  shows "a \<le> expo q"
proof -
  from expo_bounds(2) [OF assms(1)] assms(2) have "(2::rat) powi a < 2 powi (expo q + 1)" by simp
  then have "a < expo q + 1" by (metis not_less one_le_numeral power_int_increasing)
  then show ?thesis by simp
qed

lemma expo_upper:
  assumes "q \<noteq> 0" and "\<bar>q\<bar> < 2 powi (b + 1)"
  shows "expo q \<le> b"
proof -
  from expo_bounds(1) [OF assms(1)] assms(2) have "(2::rat) powi (expo q) < 2 powi (b + 1)" by simp
  then have "expo q < b + 1" by (metis not_less one_le_numeral power_int_increasing)
  then show ?thesis by simp
qed

text \<open>Rounding in the range \<open>2 powi (-40) \<le> \<bar>q\<bar> < 2 powi 41\<close>.\<close>

lemma fl_range:
  assumes lo: "1 / 2 ^ 40 \<le> \<bar>q\<bar>" and hi: "\<bar>q\<bar> < 2 ^ 41"
  shows "\<exists>r. fl q = Some r \<and> \<bar>r - q\<bar> \<le> 1 / 2 ^ 13
    \<and> (\<forall>N. of_int N \<le> q \<longrightarrow> of_int N \<le> r)
    \<and> (\<forall>N. q \<le> of_int N \<longrightarrow> r \<le> of_int N)"
proof -
  have "(0::rat) < 1 / 2 ^ 40" by simp
  with lo have "0 < \<bar>q\<bar>" by linarith
  then have q: "q \<noteq> 0" by simp
  define e where "e = expo q"
  have "(2::rat) powi (- 40) = 1 / 2 ^ 40" by (simp add: power_int_minus_divide)
  with lo have "2 powi (- 40) \<le> \<bar>q\<bar>" by simp
  from expo_lower [OF q this] have e1: "- 40 \<le> e" by (simp add: e_def)
  have "(2::rat) powi (40 + 1) = 2 ^ 41" by simp
  with hi have "\<bar>q\<bar> < 2 powi (40 + 1)" by simp
  from expo_upper [OF q this] have e2: "e \<le> 40" by (simp add: e_def)
  define j where "j = nat (52 - e)"
  have j: "12 \<le> j" "int j = 52 - e" using e1 e2 by (simp_all add: j_def)
  have "e - 52 = - int j" using j by simp
  then have "(2::rat) powi (e - 52) = 1 / 2 ^ j"
    by (simp only: power_int_minus_divide power_int_of_nat)
  moreover have "max e (- 1022) = e" using e1 by simp
  ultimately have u: "ulp q = 1 / 2 ^ j" by (simp add: ulp_def e_def)
  define m where "m = rnd_even (q * 2 ^ j)"
  define r where "r = of_int m / (2 ^ j :: rat)"
  have p: "(0::rat) < 2 ^ j" by simp
  have err: "\<bar>of_int m - q * 2 ^ j\<bar> \<le> 1 / 2" unfolding m_def by (rule rnd_even_err)
  have "\<bar>r - q\<bar> = \<bar>of_int m - q * 2 ^ j\<bar> / 2 ^ j"
    by (simp add: r_def field_simps abs_divide)
  also have "\<dots> \<le> (1 / 2) / 2 ^ j" by (rule divide_right_mono [OF err]) simp
  also have "\<dots> = 1 / 2 ^ (j + 1)" by simp
  also have "\<dots> \<le> 1 / 2 ^ 13"
  proof -
    have "(2::rat) ^ 13 \<le> 2 ^ (j + 1)" using j(1) by (intro power_increasing) simp_all
    then show ?thesis by (simp add: field_simps)
  qed
  finally have rq: "\<bar>r - q\<bar> \<le> 1 / 2 ^ 13" .
  have "\<bar>r\<bar> \<le> \<bar>q\<bar> + 1 / 2 ^ 13" using rq by linarith
  also have "\<dots> < 2 ^ 42" using hi by simp
  also have "(2::rat) ^ 42 \<le> 2 ^ 1024" by (intro power_increasing) simp_all
  finally have "\<not> 2 ^ 1024 \<le> \<bar>r\<bar>" by simp
  then have f: "fl q = Some r"
    using q by (simp add: fl_def u r_def m_def Let_def)
  have ge: "of_int N \<le> r" if "of_int N \<le> q" for N
  proof -
    from that p have "of_int N * 2 ^ j \<le> q * 2 ^ j" by (simp add: mult_right_mono)
    then have "of_int (N * 2 ^ j) \<le> q * 2 ^ j" by simp
    then have "N * 2 ^ j \<le> m" unfolding m_def by (rule rnd_even_ge)
    then have "(of_int (N * 2 ^ j) :: rat) \<le> of_int m" by (simp only: of_int_le_iff)
    then have "of_int N * 2 ^ j \<le> (of_int m :: rat)" by simp
    with p show ?thesis by (simp add: r_def field_simps)
  qed
  have le: "r \<le> of_int N" if "q \<le> of_int N" for N
  proof -
    from that p have "q * 2 ^ j \<le> of_int N * 2 ^ j" by (simp add: mult_right_mono)
    then have "q * 2 ^ j \<le> of_int (N * 2 ^ j)" by simp
    then have "m \<le> N * 2 ^ j" unfolding m_def by (rule rnd_even_le)
    then have "(of_int m :: rat) \<le> of_int (N * 2 ^ j)" by (simp only: of_int_le_iff)
    then have "(of_int m :: rat) \<le> of_int N * 2 ^ j" by simp
    with p show ?thesis by (simp add: r_def field_simps)
  qed
  from f rq ge le show ?thesis by blast
qed

lemma fl_zero: "fl 0 = Some 0"
  by (simp add: fl_def)

lemma fl_of_int:
  assumes "\<bar>k\<bar> < 2 ^ 41"
  shows "fl (of_int k) = Some (of_int k)"
proof (cases "k = 0")
  case True
  then show ?thesis by (simp add: fl_zero)
next
  case False
  then have "1 \<le> \<bar>k\<bar>" by simp
  then have "(1::rat) \<le> \<bar>of_int k\<bar>" by (metis of_int_1 of_int_abs of_int_le_iff)
  moreover have "(1::rat) / 2 ^ 40 \<le> 1" by simp
  ultimately have lo: "1 / 2 ^ 40 \<le> \<bar>rat_of_int k\<bar>" by linarith
  from assms have "rat_of_int \<bar>k\<bar> < of_int (2 ^ 41)" by (simp only: of_int_less_iff)
  then have hi: "\<bar>rat_of_int k\<bar> < 2 ^ 41" by simp
  from fl_range [OF lo hi] obtain r where r: "fl (of_int k) = Some r"
    and ge: "\<And>N. rat_of_int N \<le> of_int k \<Longrightarrow> of_int N \<le> r"
    and le: "\<And>N. rat_of_int k \<le> of_int N \<Longrightarrow> r \<le> of_int N"
    by blast
  from ge [of k] le [of k] have "r = of_int k" by simp
  with r show ?thesis by simp
qed

text \<open>The floor of the float quotient \<open>n / 100\<close> is the integer quotient.\<close>

lemma fl_div_100:
  assumes "\<bar>n\<bar> \<le> 10 ^ 12"
  obtains r where "fl (of_int n / 100) = Some r" and "\<lfloor>r\<rfloor> = n div 100"
proof (cases "n = 0")
  case True
  then have "fl (of_int n / 100) = Some 0" "\<lfloor>0::rat\<rfloor> = n div 100" by (simp_all add: fl_zero)
  then show ?thesis by (rule that)
next
  case False
  let ?q = "rat_of_int n / 100"
  from False have "1 \<le> \<bar>n\<bar>" by simp
  then have "(1::rat) \<le> \<bar>of_int n\<bar>" by (metis of_int_1 of_int_abs of_int_le_iff)
  then have "1 / 100 \<le> \<bar>?q\<bar>" by simp
  moreover have "(1::rat) / 2 ^ 40 \<le> 1 / 100" by simp
  ultimately have lo: "1 / 2 ^ 40 \<le> \<bar>?q\<bar>" by linarith
  from assms have "rat_of_int \<bar>n\<bar> \<le> of_int (10 ^ 12)" by (simp only: of_int_le_iff)
  then have "\<bar>rat_of_int n\<bar> \<le> 10 ^ 12" by simp
  then have hi: "\<bar>?q\<bar> < 2 ^ 41" by simp
  from fl_range [OF lo hi] obtain r where r: "fl ?q = Some r"
    and err: "\<bar>r - ?q\<bar> \<le> 1 / 2 ^ 13"
    and ge: "\<And>N. rat_of_int N \<le> ?q \<Longrightarrow> of_int N \<le> r"
    and le: "\<And>N. ?q \<le> rat_of_int N \<Longrightarrow> r \<le> of_int N"
    by blast
  define k where "k = n div 100"
  define d where "d = n mod 100"
  have n: "n = 100 * k + d" and d: "0 \<le> d" "d \<le> 99" by (simp_all add: k_def d_def)
  have qk: "?q = of_int k + of_int d / 100" by (simp add: n)
  have "rat_of_int 0 \<le> of_int d" using d(1) by (simp only: of_int_le_iff)
  then have "rat_of_int k \<le> ?q" by (simp add: qk)
  then have lower: "rat_of_int k \<le> r" by (rule ge)
  have upper: "r < rat_of_int k + 1"
  proof (cases "d = 0")
    case True
    then have "?q \<le> rat_of_int k" by (simp add: qk)
    then have "r \<le> rat_of_int k" by (rule le)
    then show ?thesis by simp
  next
    case False
    have "rat_of_int d \<le> of_int 99" using d(2) by (simp only: of_int_le_iff)
    then have "?q \<le> of_int k + 99 / 100" by (simp add: qk)
    moreover have "(1::rat) / 2 ^ 13 < 1 / 100" by simp
    ultimately show ?thesis using err by linarith
  qed
  from lower upper have "\<lfloor>r\<rfloor> = k" by (simp add: floor_unique)
  with r show ?thesis unfolding k_def by (rule that)
qed

subsection \<open>The stat formula on moderate arguments\<close>

lemma float_1e_9_bounds: "1 / 2 ^ 40 \<le> float_1e_9" "float_1e_9 \<le> 1 / 2 ^ 13" "0 \<le> float_1e_9"
  by (simp_all add: float_1e_9_def)

text \<open>
  The product of a non-negative int by a multiplier \<open>md\<close> that sits within \<open>2 powi (-50)\<close>
  above a decimal \<open>a / 10\<close>, plus \<open>1e-9\<close>, floors to the exact quotient.
\<close>

lemma mul_add_floor:
  assumes i: "0 \<le> i" "i \<le> 10 ^ 10 + 5"
    and a: "9 \<le> a" "a \<le> 11"
    and md: "of_int a / 10 \<le> md" "md \<le> of_int a / 10 + 1 / 2 ^ 50"
  shows "math_floor (float_add (float_mul (of_int i) md) float_1e_9) = Inr ((a * i) div 10)"
proof (cases "i = 0")
  case True
  have lo: "1 / 2 ^ 40 \<le> \<bar>float_1e_9\<bar>" and hi: "\<bar>float_1e_9\<bar> < 2 ^ 41"
    by (simp_all add: float_1e_9_def)
  from fl_range [OF lo hi] obtain r where r: "fl float_1e_9 = Some r"
    and err: "\<bar>r - float_1e_9\<bar> \<le> 1 / 2 ^ 13"
    and ge: "\<And>N. rat_of_int N \<le> float_1e_9 \<Longrightarrow> of_int N \<le> r"
    by blast
  from ge [of 0] have "0 \<le> r" by (simp add: float_1e_9_def)
  moreover from err have "r - float_1e_9 \<le> 1 / 2 ^ 13" by (rule abs_le_D1)
  with float_1e_9_bounds(2) have "r < 1" by simp
  ultimately have "\<lfloor>r\<rfloor> = 0" by (simp add: floor_unique)
  with True r show ?thesis
    by (simp add: math_floor_def float_add_def float_mul_def fl_zero)
next
  case False
  with i have i1: "1 \<le> i" by simp
  define E :: rat where "E = of_int (a * i) / 10"
  define N where "N = (a * i) div 10"
  define d where "d = (a * i) mod 10"
  define p :: rat where "p = of_int i * md"
  have ri: "(1::rat) \<le> of_int i" "rat_of_int i \<le> 10 ^ 10 + 5"
  proof -
    from i1 have "rat_of_int 1 \<le> of_int i" by (simp only: of_int_le_iff)
    then show "(1::rat) \<le> of_int i" by simp
    from i(2) have "rat_of_int i \<le> of_int (10 ^ 10 + 5)" by (simp only: of_int_le_iff)
    then show "rat_of_int i \<le> 10 ^ 10 + 5" by simp
  qed
  have ra: "(9::rat) \<le> of_int a" "rat_of_int a \<le> 11"
  proof -
    from a(1) have "rat_of_int 9 \<le> of_int a" by (simp only: of_int_le_iff)
    then show "(9::rat) \<le> of_int a" by simp
    from a(2) have "rat_of_int a \<le> of_int 11" by (simp only: of_int_le_iff)
    then show "rat_of_int a \<le> 11" by simp
  qed
  have ai: "a * i = 10 * N + d" and d: "0 \<le> d" "d \<le> 9" by (simp_all add: N_def d_def)
  have EN: "E = of_int N + of_int d / 10" by (simp add: E_def ai)
  have rd: "(0::rat) \<le> of_int d" "rat_of_int d \<le> 9"
  proof -
    from d(1) have "rat_of_int 0 \<le> of_int d" by (simp only: of_int_le_iff)
    then show "(0::rat) \<le> of_int d" by simp
    from d(2) have "rat_of_int d \<le> of_int 9" by (simp only: of_int_le_iff)
    then show "rat_of_int d \<le> 9" by simp
  qed
  have NE: "of_int N \<le> E" "E \<le> of_int N + 9 / 10" using rd by (simp_all add: EN)
  have Ei: "E = of_int i * (of_int a / 10)" by (simp add: E_def)
  have pE: "E \<le> p"
    unfolding Ei p_def using md(1) ri(1) by (intro mult_left_mono) simp_all
  have "p \<le> of_int i * (of_int a / 10 + 1 / 2 ^ 50)"
    unfolding p_def using md(2) ri(1) by (intro mult_left_mono) simp_all
  also have "\<dots> = E + of_int i / 2 ^ 50" by (simp add: Ei algebra_simps)
  also have "\<dots> \<le> E + (10 ^ 10 + 5) / 2 ^ 50" using ri(2) by (simp add: divide_right_mono)
  also have "\<dots> \<le> E + 1 / 2 ^ 13" by simp
  finally have pU: "p \<le> E + 1 / 2 ^ 13" .
  have E9: "9 / 10 \<le> E"
  proof -
    have "(9 / 10 :: rat) \<le> of_int a / 10" using ra(1) by simp
    also have "\<dots> = 1 * (of_int a / 10)" by simp
    also have "\<dots> \<le> of_int i * (of_int a / 10)"
      using ri(1) ra(1) by (intro mult_right_mono) simp_all
    finally show ?thesis by (simp add: Ei)
  qed
  have EU: "E \<le> (10 ^ 10 + 5) * (11 / 10)"
  proof -
    have "E \<le> of_int i * (11 / 10)"
      unfolding Ei using ra(2) ri(1) by (intro mult_left_mono) simp_all
    also have "\<dots> \<le> (10 ^ 10 + 5) * (11 / 10)"
      using ri(2) by (intro mult_right_mono) simp_all
    finally show ?thesis .
  qed
  have p0: "0 \<le> p" using pE E9 by simp
  have plo: "1 / 2 ^ 40 \<le> \<bar>p\<bar>" using pE E9 by (simp add: abs_of_nonneg [OF p0])
  have phi: "\<bar>p\<bar> < 2 ^ 41" using pU EU by (simp add: abs_of_nonneg [OF p0])
  from fl_range [OF plo phi] obtain r1 where r1: "fl p = Some r1"
    and err1: "\<bar>r1 - p\<bar> \<le> 1 / 2 ^ 13"
    and ge1: "\<And>M. rat_of_int M \<le> p \<Longrightarrow> of_int M \<le> r1"
    by blast
  from NE(1) pE have "of_int N \<le> p" by simp
  then have Nr1: "of_int N \<le> r1" by (rule ge1)
  have N0: "(0::rat) \<le> of_int N"
  proof -
    have "0 \<le> a * i" using a(1) i(1) by simp
    then have "0 \<le> N" by (simp add: N_def pos_imp_zdiv_nonneg_iff)
    then have "rat_of_int 0 \<le> of_int N" by (simp only: of_int_le_iff)
    then show ?thesis by simp
  qed
  define s where "s = r1 + float_1e_9"
  have sN: "of_int N \<le> s" using Nr1 float_1e_9_bounds(3) by (simp add: s_def)
  from err1 have "r1 - p \<le> 1 / 2 ^ 13" by (rule abs_le_D1)
  with pU float_1e_9_bounds(2) have sU: "s \<le> E + 3 / 2 ^ 13" by (simp add: s_def)
  have s0: "0 \<le> s" using sN N0 by simp
  have slo: "1 / 2 ^ 40 \<le> \<bar>s\<bar>"
    using Nr1 N0 float_1e_9_bounds(1) by (simp add: abs_of_nonneg [OF s0]) (simp add: s_def)
  have shi: "\<bar>s\<bar> < 2 ^ 41" using sU EU by (simp add: abs_of_nonneg [OF s0])
  from fl_range [OF slo shi] obtain r2 where r2: "fl s = Some r2"
    and err2: "\<bar>r2 - s\<bar> \<le> 1 / 2 ^ 13"
    and ge2: "\<And>M. rat_of_int M \<le> s \<Longrightarrow> of_int M \<le> r2"
    by blast
  from sN have lower: "of_int N \<le> r2" by (rule ge2)
  from err2 have "r2 - s \<le> 1 / 2 ^ 13" by (rule abs_le_D1)
  with sU have "r2 \<le> E + 4 / 2 ^ 13" by simp
  with NE(2) have upper: "r2 < of_int N + 1" by simp
  from lower upper have "\<lfloor>r2\<rfloor> = N" by (simp add: floor_unique)
  with r1 r2 show ?thesis
    by (simp add: math_floor_def float_add_def float_mul_def p_def s_def N_def)
qed


lemma float_mult_bounds:
  "9 / 10 \<le> float_0_9" "float_0_9 \<le> 9 / 10 + 1 / 2 ^ 50"
  "10 / 10 \<le> float_1_0" "float_1_0 \<le> 10 / 10 + 1 / 2 ^ 50"
  "11 / 10 \<le> float_1_1" "float_1_1 \<le> 11 / 10 + 1 / 2 ^ 50"
  by (simp_all add: float_0_9_def float_1_0_def float_1_1_def)

lemma calc_stat_hp:
  assumes "\<bar>(2 * base + iv + ev div 4) * level\<bar> \<le> 10 ^ 12"
  shows "calc_stat base iv ev level nature_mult True
           = Inr ((2 * base + iv + ev div 4) * level div 100 + level + 10)"
proof -
  from fl_div_100 [OF assms] obtain r
    where "fl (of_int ((2 * base + iv + ev div 4) * level) / 100) = Some r"
      and "\<lfloor>r\<rfloor> = (2 * base + iv + ev div 4) * level div 100"
    by blast
  then show ?thesis by (simp add: calc_stat_def true_div_def)
qed

lemma calc_stat_not_hp:
  assumes n: "0 \<le> (2 * base + iv + ev div 4) * level"
      "(2 * base + iv + ev div 4) * level \<le> 10 ^ 12"
    and a: "9 \<le> a" "a \<le> 11"
    and md: "of_int a / 10 \<le> md" "md \<le> of_int a / 10 + 1 / 2 ^ 50"
  shows "calc_stat base iv ev level md False
           = Inr (a * ((2 * base + iv + ev div 4) * level div 100 + 5) div 10)"
proof -
  let ?n = "(2 * base + iv + ev div 4) * level"
  let ?i = "?n div 100 + 5"
  from n have "\<bar>?n\<bar> \<le> 10 ^ 12" by simp
  from fl_div_100 [OF this] obtain r
    where r: "fl (of_int ?n / 100) = Some r" "\<lfloor>r\<rfloor> = ?n div 100"
    by blast
  have i0: "0 \<le> ?i" using n(1) by (simp add: pos_imp_zdiv_nonneg_iff)
  have "?n div 100 \<le> 10 ^ 12 div 100" using n(2) by (rule zdiv_mono1) simp
  then have i1: "?i \<le> 10 ^ 10 + 5" by simp
  from i0 i1 have "\<bar>?i\<bar> < 2 ^ 41" by simp
  then have f: "fl (of_int ?i) = Some (of_int ?i)" by (rule fl_of_int)
  from mul_add_floor [OF i0 i1 a md] r f show ?thesis
    by (simp add: calc_stat_def true_div_def int_to_float_def Let_def)
qed

text \<open>The arguments of the precondition domain, with the base stat at most \<open>10 ^ 9\<close>.\<close>

lemma domain_product:
  fixes base iv ev level :: int
  assumes "0 \<le> base" "base \<le> 10 ^ 9" "0 \<le> iv" "iv \<le> 31" "0 \<le> ev" "ev \<le> 252"
    "1 \<le> level" "level \<le> 100"
  shows "0 \<le> (2 * base + iv + ev div 4) * level"
    and "(2 * base + iv + ev div 4) * level \<le> 10 ^ 12"
proof -
  let ?X = "2 * base + iv + ev div 4"
  have e: "0 \<le> ev div 4" "ev div 4 \<le> 63" using assms(5,6) by simp_all
  have X: "0 \<le> ?X" "?X \<le> 2 * 10 ^ 9 + 94" using assms(1-4) e by simp_all
  from X(1) assms(7) show "0 \<le> ?X * level" by simp
  have "?X * level \<le> ?X * 100" using X(1) assms(8) by (rule mult_left_mono [rotated])
  also have "\<dots> \<le> (2 * 10 ^ 9 + 94) * 100" using X(2) by simp
  also have "\<dots> \<le> 10 ^ 12" by simp
  finally show "?X * level \<le> 10 ^ 12" .
qed

subsection \<open>The scan of the reverse calculation\<close>

lemma scan_pairs_Inr:
  "scan_pairs f obs ps acc = Inr sols \<Longrightarrow>
     sols = acc @ filter (\<lambda>(iv, ev). f iv ev = Inr obs) ps
     \<and> (\<forall>(iv, ev) \<in> set ps. \<exists>s. f iv ev = Inr s)"
proof (induction ps arbitrary: acc)
  case Nil
  then show ?case by simp
next
  case (Cons p ps)
  obtain iv ev where p: "p = (iv, ev)" by (cases p)
  from Cons.prems p obtain s where s: "f iv ev = Inr s"
    by (cases "f iv ev") simp_all
  with Cons.prems p
  have "scan_pairs f obs ps (if s = obs then acc @ [(iv, ev)] else acc) = Inr sols" by simp
  from Cons.IH [OF this] s p show ?case by auto
qed

lemma scan_pairs_total:
  "\<forall>(iv, ev) \<in> set ps. \<exists>s. f iv ev = Inr s \<Longrightarrow>
     scan_pairs f obs ps acc = Inr (acc @ filter (\<lambda>(iv, ev). f iv ev = Inr obs) ps)"
proof (induction ps arbitrary: acc)
  case Nil
  then show ?case by simp
next
  case (Cons p ps)
  obtain iv ev where p: "p = (iv, ev)" by (cases p)
  from Cons.prems p obtain s where s: "f iv ev = Inr s" by auto
  from Cons.prems have "\<forall>(iv, ev) \<in> set ps. \<exists>s. f iv ev = Inr s" by simp
  from Cons.IH [OF this] s p show ?case by simp
qed

lemma scan_pairs_fails:
  "(iv, ev) \<in> set ps \<Longrightarrow> f iv ev = Inl e \<Longrightarrow> \<exists>e'. scan_pairs f obs ps acc = Inl e'"
proof (induction ps arbitrary: acc)
  case Nil
  then show ?case by simp
next
  case (Cons p ps)
  obtain iv' ev' where p: "p = (iv', ev')" by (cases p)
  show ?case
  proof (cases "f iv' ev'")
    case (Inl e')
    with p show ?thesis by simp
  next
    case (Inr s)
    with Cons.prems p have "(iv, ev) \<in> set ps" by auto
    from Cons.IH [OF this Cons.prems(2)] Inr p show ?thesis by simp
  qed
qed

text \<open>The first element after sorting by a key has the least key.\<close>

lemma hd_sort_key:
  assumes "xs \<noteq> []"
  shows "hd (sort_key k xs) \<in> set xs" and "\<forall>x \<in> set xs. k (hd (sort_key k xs)) \<le> k x"
proof -
  let ?s = "sort_key k xs"
  from assms have "set ?s \<noteq> {}" by simp
  then have ne: "?s \<noteq> []" by (metis empty_set)
  then obtain y ys where s: "?s = y # ys" by (cases ?s) auto
  have sx: "set xs = insert y (set ys)" using s by (metis list.simps(15) set_sort)
  have hd: "hd ?s = y" by (simp only: s list.sel)
  from sx show "hd ?s \<in> set xs" by (simp only: hd) simp
  have "sorted (map k ?s)" by (rule sorted_sort_key)
  then have "sorted (map k (y # ys))" by (simp only: s)
  then have "\<forall>z \<in> set ys. k y \<le> k z" by simp
  with sx show "\<forall>x \<in> set xs. k (hd ?s) \<le> k x" by (simp only: hd) auto
qed

lemma mem_product_range:
  "(iv, ev) \<in> set (List.product [0..max_iv] ev_range) \<longleftrightarrow>
     0 \<le> iv \<and> iv \<le> max_iv \<and> ev \<in> set ev_range"
  by auto

text \<open>What a returned pair is: a match with the greatest IV and, for that IV, the least EV.\<close>

lemma reverse_Some:
  assumes "reverse_calc_iv_ev_for_stat observed base level nature_mult is_hp max_iv
             = Inr (Some (iv, ev))"
  shows "0 \<le> iv \<and> iv \<le> max_iv \<and> ev \<in> set ev_range
    \<and> calc_stat base iv ev level nature_mult is_hp = Inr observed
    \<and> (\<forall>iv' ev'. 0 \<le> iv' \<and> iv' \<le> max_iv \<and> ev' \<in> set ev_range
          \<and> calc_stat base iv' ev' level nature_mult is_hp = Inr observed
          \<longrightarrow> iv' \<le> iv \<and> (iv' = iv \<longrightarrow> ev \<le> ev'))"
proof -
  let ?f = "\<lambda>iv ev. calc_stat base iv ev level nature_mult is_hp"
  let ?ps = "List.product [0..max_iv] ev_range"
  let ?k = "\<lambda>(iv, ev). (- iv, ev) :: int \<times> int"
  from assms obtain sols where sc: "scan_pairs ?f observed ?ps [] = Inr sols"
    by (auto simp: reverse_calc_iv_ev_for_stat_def split: sum.splits)
  from scan_pairs_Inr [OF sc]
  have sols: "sols = filter (\<lambda>(iv, ev). ?f iv ev = Inr observed) ?ps" by simp
  from assms sc have ne: "sols \<noteq> []" and h: "hd (sort_key ?k sols) = (iv, ev)"
    by (auto simp: reverse_calc_iv_ev_for_stat_def split: if_splits)
  from hd_sort_key [OF ne, of ?k] h
  have mem: "(iv, ev) \<in> set sols" and least: "\<forall>x \<in> set sols. ?k (iv, ev) \<le> ?k x" by simp_all
  from mem have m: "(iv, ev) \<in> set ?ps" "?f iv ev = Inr observed" by (simp_all add: sols)
  have "iv' \<le> iv \<and> (iv' = iv \<longrightarrow> ev \<le> ev')"
    if "0 \<le> iv'" "iv' \<le> max_iv" "ev' \<in> set ev_range" "?f iv' ev' = Inr observed" for iv' ev'
  proof -
    from that have "(iv', ev') \<in> set sols" by (simp add: sols)
    with least have "?k (iv, ev) \<le> ?k (iv', ev')" by blast
    then show ?thesis by (auto simp: less_eq_prod_def)
  qed
  with m show ?thesis by (simp only: mem_product_range) blast
qed

text \<open>Conversely, when no evaluation of the scan fails, the best match is what is returned.\<close>

lemma reverse_eqI:
  assumes tot: "\<And>iv' ev'. 0 \<le> iv' \<Longrightarrow> iv' \<le> max_iv \<Longrightarrow> ev' \<in> set ev_range
            \<Longrightarrow> \<exists>s. calc_stat base iv' ev' level nature_mult is_hp = Inr s"
    and m: "0 \<le> iv" "iv \<le> max_iv" "ev \<in> set ev_range"
      "calc_stat base iv ev level nature_mult is_hp = Inr observed"
    and best: "\<And>iv' ev'. 0 \<le> iv' \<Longrightarrow> iv' \<le> max_iv \<Longrightarrow> ev' \<in> set ev_range
            \<Longrightarrow> calc_stat base iv' ev' level nature_mult is_hp = Inr observed
            \<Longrightarrow> iv' \<le> iv \<and> (iv' = iv \<longrightarrow> ev \<le> ev')"
  shows "reverse_calc_iv_ev_for_stat observed base level nature_mult is_hp max_iv
           = Inr (Some (iv, ev))"
proof -
  let ?f = "\<lambda>iv ev. calc_stat base iv ev level nature_mult is_hp"
  let ?ps = "List.product [0..max_iv] ev_range"
  let ?k = "\<lambda>(iv, ev). (- iv, ev) :: int \<times> int"
  define sols where "sols = filter (\<lambda>(iv, ev). ?f iv ev = Inr observed) ?ps"
  have "\<forall>(iv, ev) \<in> set ?ps. \<exists>s. ?f iv ev = Inr s"
    using tot by (auto simp only: mem_product_range)
  from scan_pairs_total [OF this, of observed "[]"]
  have sc: "scan_pairs ?f observed ?ps [] = Inr sols" by (simp add: sols_def)
  from m have mem: "(iv, ev) \<in> set sols"
    unfolding sols_def by (simp only: set_filter mem_Collect_eq mem_product_range) simp
  then have ne: "sols \<noteq> []" by auto
  obtain iv0 ev0 where h: "hd (sort_key ?k sols) = (iv0, ev0)" by (cases "hd (sort_key ?k sols)")
  from hd_sort_key [OF ne, of ?k] h
  have mem0: "(iv0, ev0) \<in> set sols" and least: "\<forall>x \<in> set sols. ?k (iv0, ev0) \<le> ?k x"
    by simp_all
  from least mem have "?k (iv0, ev0) \<le> ?k (iv, ev)" by blast
  then have a: "iv < iv0 \<or> (iv = iv0 \<and> ev0 \<le> ev)" by (auto simp: less_eq_prod_def)
  from mem0 have "(iv0, ev0) \<in> set ?ps" "?f iv0 ev0 = Inr observed" by (simp_all add: sols_def)
  then have "0 \<le> iv0" "iv0 \<le> max_iv" "ev0 \<in> set ev_range" "?f iv0 ev0 = Inr observed"
    by (simp_all only: mem_product_range)
  from best [OF this] a have "iv0 = iv \<and> ev0 = ev" by auto
  with sc ne h show ?thesis by (simp add: reverse_calc_iv_ev_for_stat_def)
qed

subsection \<open>The stat formula and the scans on the precondition domain\<close>

lemma ev_range_iff: "ev \<in> set ev_range \<longleftrightarrow> (\<exists>k. 0 \<le> k \<and> k \<le> 63 \<and> ev = 4 * k)"
  by (auto simp: ev_range_def)

lemma ev_range_bounds: "ev \<in> set ev_range \<Longrightarrow> 0 \<le> ev \<and> ev \<le> 252"
  by (auto simp: ev_range_iff)

lemma floor_raw: "\<lfloor>rat_of_int n / 100\<rfloor> = n div 100"
  using floor_divide_of_int_eq [of n 100, where ?'a = rat] by simp

lemma floor_tenths: "\<lfloor>rat_of_int i * (of_int a / 10)\<rfloor> = a * i div 10"
proof -
  have "rat_of_int i * (of_int a / 10) = of_int (a * i) / of_int 10" by simp
  then show ?thesis by (simp only: floor_divide_of_int_eq)
qed

lemma exact_stat_int:
  "exact_stat base iv ev level (of_int a / 10) is_hp =
     (if is_hp then (2 * base + iv + ev div 4) * level div 100 + level + 10
      else a * ((2 * base + iv + ev div 4) * level div 100 + 5) div 10)"
  unfolding exact_stat_def Let_def by (simp only: floor_raw floor_tenths)

text \<open>On the precondition domain with a base stat up to \<open>10 ^ 9\<close> the code computes the
  exact formula, for each of the three multipliers.\<close>

lemma calc_stat_exact:
  assumes dom: "0 \<le> base" "base \<le> 10 ^ 9" "0 \<le> iv" "iv \<le> 31" "0 \<le> ev" "ev \<le> 252"
      "1 \<le> level" "level \<le> 100"
    and a: "9 \<le> a" "a \<le> 11"
    and md: "of_int a / 10 \<le> md" "md \<le> of_int a / 10 + 1 / 2 ^ 50"
  shows "calc_stat base iv ev level md is_hp
           = Inr (exact_stat base iv ev level (of_int a / 10) is_hp)"
proof -
  note n = domain_product [OF dom]
  show ?thesis
  proof (cases is_hp)
    case True
    from n have "\<bar>(2 * base + iv + ev div 4) * level\<bar> \<le> 10 ^ 12" by simp
    from calc_stat_hp [OF this, of md] True show ?thesis
      by (simp only: exact_stat_int if_True)
  next
    case False
    from calc_stat_not_hp [OF n a md] False show ?thesis
      by (simp only: exact_stat_int if_False)
  qed
qed

lemma calc_stat_exact_1_0:
  assumes "0 \<le> base" "base \<le> 10 ^ 9" "0 \<le> iv" "iv \<le> 31" "0 \<le> ev" "ev \<le> 252"
      "1 \<le> level" "level \<le> 100"
  shows "calc_stat base iv ev level float_1_0 is_hp = Inr (exact_stat base iv ev level 1 is_hp)"
  using calc_stat_exact [OF assms, of 10 float_1_0 is_hp] float_mult_bounds(3,4) by simp

lemma calc_stat_exact_0_9:
  assumes "0 \<le> base" "base \<le> 10 ^ 9" "0 \<le> iv" "iv \<le> 31" "0 \<le> ev" "ev \<le> 252"
      "1 \<le> level" "level \<le> 100"
  shows "calc_stat base iv ev level float_0_9 is_hp
           = Inr (exact_stat base iv ev level (9 / 10) is_hp)"
  using calc_stat_exact [OF assms, of 9 float_0_9 is_hp] float_mult_bounds(1,2) by simp

lemma calc_stat_exact_1_1:
  assumes "0 \<le> base" "base \<le> 10 ^ 9" "0 \<le> iv" "iv \<le> 31" "0 \<le> ev" "ev \<le> 252"
      "1 \<le> level" "level \<le> 100"
  shows "calc_stat base iv ev level float_1_1 is_hp
           = Inr (exact_stat base iv ev level (11 / 10) is_hp)"
  using calc_stat_exact [OF assms, of 11 float_1_1 is_hp] float_mult_bounds(5,6) by simp

lemma calc_stat_domain:
  assumes "0 \<le> base" "base \<le> 10 ^ 9" "0 \<le> iv" "iv \<le> 31" "ev \<in> set ev_range"
      "1 \<le> level" "level \<le> 100"
    and "nature_mult \<in> {float_0_9, float_1_0, float_1_1}"
  shows "\<exists>s. calc_stat base iv ev level nature_mult is_hp = Inr s"
proof -
  from ev_range_bounds [OF assms(5)] have e: "0 \<le> ev" "ev \<le> 252" by simp_all
  note d = assms(1-4) e assms(6,7)
  from assms(8) calc_stat_exact_0_9 [OF d] calc_stat_exact_1_0 [OF d] calc_stat_exact_1_1 [OF d]
  show ?thesis by auto
qed


lemma calc_stat_50_50:
  assumes "0 \<le> iv" "iv \<le> 31" "ev \<in> set ev_range"
  shows "calc_stat 50 iv ev 50 float_1_0 False = Inr ((100 + iv + ev div 4) div 2 + 5)"
proof -
  from ev_range_bounds [OF assms(3)] have e: "0 \<le> ev" "ev \<le> 252" by simp_all
  have "calc_stat 50 iv ev 50 float_1_0 False = Inr (exact_stat 50 iv ev 50 (of_int 10 / 10) False)"
    using calc_stat_exact_1_0 [of 50 iv ev 50 False] assms(1,2) e by simp
  also have "exact_stat 50 iv ev 50 (of_int 10 / 10) False = (100 + iv + ev div 4) div 2 + 5"
    by (simp only: exact_stat_int if_False) simp
  finally show ?thesis .
qed

lemma find_ev_total:
  "\<forall>ev \<in> set evs. \<exists>s. g ev = Inr s \<Longrightarrow>
     find_ev g obs evs
       = Inr (case filter (\<lambda>ev. g ev = Inr obs) evs of [] \<Rightarrow> None | e # es \<Rightarrow> Some e)"
proof (induction evs)
  case Nil
  then show ?case by simp
next
  case (Cons ev evs)
  then obtain s where "g ev = Inr s" by auto
  with Cons show ?case by simp
qed

lemma sorted_ev_range: "sorted ev_range"
  by (simp add: ev_range_def sorted_map)

lemma hd_filter_sorted_le:
  assumes "sorted xs" and "filter P xs = e # es" and "x \<in> set xs" and "P x"
  shows "e \<le> x"
proof -
  from assms(1) have "sorted (filter P xs)" by (rule sorted_wrt_filter)
  then have "\<forall>y \<in> set es. e \<le> y" by (simp add: assms(2))
  moreover from assms(3,4) have "x \<in> set (filter P xs)" by simp
  then have "x = e \<or> x \<in> set es" by (simp add: assms(2))
  ultimately show ?thesis by auto
qed

text \<open>The scan with the IV held fixed, against the full scan up to that IV.\<close>

lemma assumed_iv_generic:
  assumes rev: "reverse_calc_iv_ev_for_stat observed base level nature_mult is_hp known_iv = Inr r"
    and k: "0 \<le> known_iv"
  shows "assumed_iv_ev observed base known_iv level nature_mult is_hp
           = Inr (case r of None \<Rightarrow> None
                  | Some (iv, ev) \<Rightarrow> if iv = known_iv then Some ev else None)"
proof -
  let ?f = "\<lambda>iv ev. calc_stat base iv ev level nature_mult is_hp"
  let ?ps = "List.product [0..known_iv] ev_range"
  let ?P = "\<lambda>ev. ?f known_iv ev = Inr observed"
  from rev obtain sols where sc: "scan_pairs ?f observed ?ps [] = Inr sols"
    by (auto simp: reverse_calc_iv_ev_for_stat_def split: sum.splits)
  from scan_pairs_Inr [OF sc] have all: "\<forall>(iv, ev) \<in> set ?ps. \<exists>s. ?f iv ev = Inr s" by simp
  have tot: "\<exists>s. ?f iv' ev' = Inr s"
    if "0 \<le> iv'" "iv' \<le> known_iv" "ev' \<in> set ev_range" for iv' ev'
  proof -
    from that have "(iv', ev') \<in> set ?ps" by (simp only: mem_product_range)
    with all show ?thesis by blast
  qed
  then have "\<forall>ev \<in> set ev_range. \<exists>s. ?f known_iv ev = Inr s" using k by simp
  from find_ev_total [OF this, of observed]
  have fe: "assumed_iv_ev observed base known_iv level nature_mult is_hp
      = Inr (case filter ?P ev_range of [] \<Rightarrow> None | e # es \<Rightarrow> Some e)"
    by (simp add: assumed_iv_ev_def)
  show ?thesis
  proof (cases "filter ?P ev_range")
    case Nil
    then have no: "\<not> ?P ev" if "ev \<in> set ev_range" for ev
      using that by (simp add: filter_empty_conv)
    have "(case r of None \<Rightarrow> None
           | Some (iv, ev) \<Rightarrow> if iv = known_iv then Some ev else None) = None"
    proof (cases r)
      case None
      then show ?thesis by simp
    next
      case (Some p)
      obtain iv ev where p: "p = (iv, ev)" by (cases p)
      from reverse_Some [OF rev [unfolded Some p]]
      have "ev \<in> set ev_range" "?f iv ev = Inr observed" by simp_all
      with no [of ev] have "iv \<noteq> known_iv" by auto
      with Some p show ?thesis by simp
    qed
    with fe Nil show ?thesis by simp
  next
    case (Cons e0 es)
    then have "e0 \<in> set (filter ?P ev_range)" by simp
    then have e0: "e0 \<in> set ev_range" "?f known_iv e0 = Inr observed" by simp_all
    have best: "iv' \<le> known_iv \<and> (iv' = known_iv \<longrightarrow> e0 \<le> ev')"
      if "0 \<le> iv'" "iv' \<le> known_iv" "ev' \<in> set ev_range" "?f iv' ev' = Inr observed"
      for iv' ev'
    proof -
      have "e0 \<le> ev'" if "iv' = known_iv"
        using hd_filter_sorted_le [OF sorted_ev_range Cons \<open>ev' \<in> set ev_range\<close>]
          \<open>?f iv' ev' = Inr observed\<close> that by simp
      with that(2) show ?thesis by simp
    qed
    have "reverse_calc_iv_ev_for_stat observed base level nature_mult is_hp known_iv
        = Inr (Some (known_iv, e0))"
      by (rule reverse_eqI [OF tot k order_refl e0 best])
    with rev have "r = Some (known_iv, e0)" by simp
    with fe Cons show ?thesis by simp
  qed
qed

lemma reverse_total:
  assumes tot: "\<And>iv' ev'. 0 \<le> iv' \<Longrightarrow> iv' \<le> max_iv \<Longrightarrow> ev' \<in> set ev_range
            \<Longrightarrow> \<exists>s. calc_stat base iv' ev' level nature_mult is_hp = Inr s"
  shows "\<exists>r. reverse_calc_iv_ev_for_stat observed base level nature_mult is_hp max_iv = Inr r"
proof -
  let ?f = "\<lambda>iv ev. calc_stat base iv ev level nature_mult is_hp"
  let ?ps = "List.product [0..max_iv] ev_range"
  have "\<forall>(iv, ev) \<in> set ?ps. \<exists>s. ?f iv ev = Inr s"
    using tot by (auto simp only: mem_product_range)
  from scan_pairs_total [OF this, of observed "[]"] show ?thesis
    by (simp add: reverse_calc_iv_ev_for_stat_def)
qed


subsection \<open>Claims on the reverse calculation\<close>

text \<open>
  Claim C2. Whenever \<open>reverse_calc_iv_ev_for_stat\<close> returns a pair \<open>(iv, ev)\<close>, the pair is in
  the scanned range and reproduces the observed value, every pair of the range that
  reproduces it has an IV at most \<open>iv\<close>, and those with the IV \<open>iv\<close> have an EV at least
  \<open>ev\<close>. For the observed value 80, base 50, level 50, multiplier 1.0 and a non-HP stat the
  result is \<open>(31, 76)\<close>.
\<close>

theorem reverse_tie_break:
  "(reverse_calc_iv_ev_for_stat observed base level nature_mult is_hp max_iv = Inr (Some (iv, ev))
      \<longrightarrow> 0 \<le> iv \<and> iv \<le> max_iv \<and> ev \<in> set ev_range
        \<and> calc_stat base iv ev level nature_mult is_hp = Inr observed
        \<and> (\<forall>iv' ev'. 0 \<le> iv' \<and> iv' \<le> max_iv \<and> ev' \<in> set ev_range
              \<and> calc_stat base iv' ev' level nature_mult is_hp = Inr observed
              \<longrightarrow> iv' \<le> iv \<and> (iv' = iv \<longrightarrow> ev \<le> ev')))
   \<and> reverse_calc_iv_ev_for_stat 80 50 50 float_1_0 False 31 = Inr (Some (31, 76))"
proof (rule conjI)
  show "reverse_calc_iv_ev_for_stat observed base level nature_mult is_hp max_iv
          = Inr (Some (iv, ev))
      \<longrightarrow> 0 \<le> iv \<and> iv \<le> max_iv \<and> ev \<in> set ev_range
        \<and> calc_stat base iv ev level nature_mult is_hp = Inr observed
        \<and> (\<forall>iv' ev'. 0 \<le> iv' \<and> iv' \<le> max_iv \<and> ev' \<in> set ev_range
              \<and> calc_stat base iv' ev' level nature_mult is_hp = Inr observed
              \<longrightarrow> iv' \<le> iv \<and> (iv' = iv \<longrightarrow> ev \<le> ev'))"
    by (rule impI) (rule reverse_Some)
next
  have tot: "\<exists>s. calc_stat 50 iv' ev' 50 float_1_0 False = Inr s"
    if "0 \<le> iv'" "iv' \<le> 31" "ev' \<in> set ev_range" for iv' ev'
    using calc_stat_50_50 [OF that] by simp
  have e: "76 \<in> set ev_range" by (simp add: ev_range_iff)
  have m: "calc_stat 50 31 76 50 float_1_0 False = Inr 80"
    using calc_stat_50_50 [of 31 76] e by simp
  have best: "iv' \<le> 31 \<and> (iv' = 31 \<longrightarrow> 76 \<le> ev')"
    if "0 \<le> iv'" "iv' \<le> 31" "ev' \<in> set ev_range"
      "calc_stat 50 iv' ev' 50 float_1_0 False = Inr 80" for iv' ev'
  proof -
    from that(4) calc_stat_50_50 [OF that(1-3)]
    have "(100 + iv' + ev' div 4) div 2 + 5 = 80" by simp
    with that(2) show ?thesis by auto
  qed
  show "reverse_calc_iv_ev_for_stat 80 50 50 float_1_0 False 31 = Inr (Some (31, 76))"
    by (rule reverse_eqI [OF tot _ _ e m best]) simp_all
qed

theorem reverse_tie_break_witness:
  "reverse_calc_iv_ev_for_stat 80 50 50 float_1_0 False 31 = Inr (Some (31, 76))
   \<and> calc_stat 50 31 76 50 float_1_0 False = Inr 80
   \<and> calc_stat 50 31 80 50 float_1_0 False = Inr 80"
proof -
  have e: "80 \<in> set ev_range" by (simp add: ev_range_iff)
  have "calc_stat 50 31 80 50 float_1_0 False = Inr 80"
    using calc_stat_50_50 [of 31 80] e by simp
  with reverse_tie_break [of 80 50 50 float_1_0 False 31 31 76] show ?thesis by simp
qed

text \<open>
  Claim C1, as amended. For a base stat between 0 and \<open>10 ^ 9\<close>, a level from 1 to 100, one
  of the three multipliers, an IV from 0 to 31 and an EV of \<open>0, 4, \<dots>, 252\<close>, the forward
  formula returns a value, and the reverse calculation on that value returns a pair that
  reproduces it.
\<close>

theorem reverse_round_trip:
  assumes "0 \<le> base" "base \<le> 10 ^ 9" "1 \<le> level" "level \<le> 100"
    and "nature_mult \<in> {float_0_9, float_1_0, float_1_1}"
    and "0 \<le> iv" "iv \<le> 31" "ev \<in> set ev_range"
  shows "\<exists>observed iv' ev'.
           calc_stat base iv ev level nature_mult is_hp = Inr observed
           \<and> reverse_calc_iv_ev_for_stat observed base level nature_mult is_hp 31
                 = Inr (Some (iv', ev'))
           \<and> calc_stat base iv' ev' level nature_mult is_hp = Inr observed"
proof -
  let ?f = "\<lambda>iv ev. calc_stat base iv ev level nature_mult is_hp"
  let ?ps = "List.product [0..31] ev_range"
  let ?k = "\<lambda>(iv, ev). (- iv, ev) :: int \<times> int"
  have tot: "\<exists>s. ?f iv' ev' = Inr s"
    if "0 \<le> iv'" "iv' \<le> 31" "ev' \<in> set ev_range" for iv' ev'
    using calc_stat_domain [OF assms(1,2) that assms(3-5)] .
  from tot [OF assms(6-8)] obtain observed where obs: "?f iv ev = Inr observed" by blast
  define sols where "sols = filter (\<lambda>(iv, ev). ?f iv ev = Inr observed) ?ps"
  have "\<forall>(iv, ev) \<in> set ?ps. \<exists>s. ?f iv ev = Inr s"
    using tot by (auto simp only: mem_product_range)
  from scan_pairs_total [OF this, of observed "[]"]
  have sc: "scan_pairs ?f observed ?ps [] = Inr sols" by (simp add: sols_def)
  from assms(6-8) obs have "(iv, ev) \<in> set sols"
    unfolding sols_def by (simp only: set_filter mem_Collect_eq mem_product_range) simp
  then have ne: "sols \<noteq> []" by auto
  obtain iv' ev' where h: "hd (sort_key ?k sols) = (iv', ev')" by (cases "hd (sort_key ?k sols)")
  from hd_sort_key(1) [OF ne, of ?k] h have "(iv', ev') \<in> set sols" by simp
  then have "?f iv' ev' = Inr observed" by (simp add: sols_def)
  moreover from sc ne h
  have "reverse_calc_iv_ev_for_stat observed base level nature_mult is_hp 31
          = Inr (Some (iv', ev'))"
    by (simp add: reverse_calc_iv_ev_for_stat_def)
  ultimately show ?thesis using obs by blast
qed

theorem reverse_round_trip_witness:
  "\<exists>observed iv' ev'.
      calc_stat 100 31 252 100 float_1_1 False = Inr observed
      \<and> reverse_calc_iv_ev_for_stat observed 100 100 float_1_1 False 31 = Inr (Some (iv', ev'))
      \<and> calc_stat 100 iv' ev' 100 float_1_1 False = Inr observed"
proof -
  have "252 \<in> set ev_range" by (simp add: ev_range_iff)
  then show ?thesis
    using reverse_round_trip [of 100 100 float_1_1 31 252 False] by simp
qed

text \<open>
  Claim C7, as amended. On the same domain, with a known IV from 0 to 31, the reverse
  calculation with \<open>max_iv\<close> set to the known IV returns a result, and the scan that holds
  the IV fixed returns the EV of that result when its IV is the known IV, and \<open>None\<close> when
  the result is \<open>None\<close> or has a smaller IV.
\<close>

theorem assumed_iv_mode:
  assumes "0 \<le> base" "base \<le> 10 ^ 9" "1 \<le> level" "level \<le> 100"
    and "nature_mult \<in> {float_0_9, float_1_0, float_1_1}"
    and "0 \<le> known_iv" "known_iv \<le> 31"
  shows "\<exists>r. reverse_calc_iv_ev_for_stat observed base level nature_mult is_hp known_iv = Inr r
           \<and> assumed_iv_ev observed base known_iv level nature_mult is_hp
               = Inr (case r of None \<Rightarrow> None
                      | Some (iv, ev) \<Rightarrow> if iv = known_iv then Some ev else None)"
proof -
  have "\<exists>s. calc_stat base iv' ev' level nature_mult is_hp = Inr s"
    if "0 \<le> iv'" "iv' \<le> known_iv" "ev' \<in> set ev_range" for iv' ev'
  proof -
    from that(2) assms(7) have "iv' \<le> 31" by simp
    from calc_stat_domain [OF assms(1,2) that(1) this that(3) assms(3-5)] show ?thesis .
  qed
  from reverse_total [of known_iv base level nature_mult is_hp observed, OF this]
  obtain r where r: "reverse_calc_iv_ev_for_stat observed base level nature_mult is_hp known_iv
      = Inr r"
    by blast
  from assumed_iv_generic [OF r assms(6)] r show ?thesis by blast
qed

text \<open>
  For the observed value 55, base 50, level 50, multiplier 1.0, a non-HP stat and the known
  IV 31, no EV matches at IV 31, so the fixed scan returns \<open>None\<close>, while the reverse
  calculation with \<open>max_iv = 31\<close> returns the pair \<open>(1, 0)\<close>.
\<close>

theorem assumed_iv_mode_differs:
  "assumed_iv_ev 55 50 31 50 float_1_0 False = Inr None
   \<and> reverse_calc_iv_ev_for_stat 55 50 50 float_1_0 False 31 = Inr (Some (1, 0))"
proof
  have tot: "\<exists>s. calc_stat 50 iv' ev' 50 float_1_0 False = Inr s"
    if "0 \<le> iv'" "iv' \<le> 31" "ev' \<in> set ev_range" for iv' ev'
    using calc_stat_50_50 [OF that] by simp
  have e: "0 \<in> set ev_range" by (simp add: ev_range_iff)
  have m: "calc_stat 50 1 0 50 float_1_0 False = Inr 55"
    using calc_stat_50_50 [of 1 0] e by simp
  have best: "iv' \<le> 1 \<and> (iv' = 1 \<longrightarrow> 0 \<le> ev')"
    if "0 \<le> iv'" "iv' \<le> 31" "ev' \<in> set ev_range"
      "calc_stat 50 iv' ev' 50 float_1_0 False = Inr 55" for iv' ev'
  proof -
    from that(4) calc_stat_50_50 [OF that(1-3)]
    have "(100 + iv' + ev' div 4) div 2 + 5 = 55" by simp
    with ev_range_bounds [OF that(3)] show ?thesis by auto
  qed
  show r: "reverse_calc_iv_ev_for_stat 55 50 50 float_1_0 False 31 = Inr (Some (1, 0))"
    by (rule reverse_eqI [OF tot _ _ e m best]) simp_all
  from assumed_iv_generic [OF r] show "assumed_iv_ev 55 50 31 50 float_1_0 False = Inr None"
    by simp
qed

theorem assumed_iv_mode_witness:
  "\<exists>r. reverse_calc_iv_ev_for_stat 80 50 50 float_1_0 False 31 = Inr r
     \<and> assumed_iv_ev 80 50 31 50 float_1_0 False
         = Inr (case r of None \<Rightarrow> None | Some (iv, ev) \<Rightarrow> if iv = 31 then Some ev else None)"
  using assumed_iv_mode [of 50 50 float_1_0 31 80 False] by simp

subsection \<open>Claims on the stat formula\<close>

text \<open>
  Claim C8, as amended. For a base stat between 0 and \<open>10 ^ 9\<close>, an IV from 0 to 31, an EV
  from 0 to 252 and a level from 1 to 100, the non-HP value computed in floating point with
  the tolerance \<open>1e-9\<close> equals the floor of \<open>inner * multiplier\<close> in exact rational
  arithmetic, for the multipliers 0.9, 1.0 and 1.1.
\<close>

theorem epsilon_harmless:
  assumes "0 \<le> base" "base \<le> 10 ^ 9" "0 \<le> iv" "iv \<le> 31" "0 \<le> ev" "ev \<le> 252"
    "1 \<le> level" "level \<le> 100"
  shows "calc_stat base iv ev level float_0_9 False
           = Inr (exact_stat base iv ev level (9 / 10) False)
    \<and> calc_stat base iv ev level float_1_0 False = Inr (exact_stat base iv ev level 1 False)
    \<and> calc_stat base iv ev level float_1_1 False
           = Inr (exact_stat base iv ev level (11 / 10) False)"
  using calc_stat_exact_0_9 [OF assms] calc_stat_exact_1_0 [OF assms]
    calc_stat_exact_1_1 [OF assms] by simp

theorem epsilon_harmless_witness:
  "calc_stat 100 31 252 100 float_1_1 False = Inr 328
   \<and> exact_stat 100 31 252 100 (11 / 10) False = 328"
proof -
  have "exact_stat 100 31 252 100 (of_int 11 / 10) False = 328"
    by (simp only: exact_stat_int if_False) simp
  then have "exact_stat 100 31 252 100 (11 / 10) False = 328" by simp
  with epsilon_harmless [of 100 31 252 100] show ?thesis by simp
qed

text \<open>
  Claim C9, as amended. \<open>calc_stat\<close> does not check its arguments. Whatever the base, IV, EV
  and level, inside the documented ranges or not, as long as the product
  \<open>(2 * base + iv + ev // 4) * level\<close> is at most \<open>10 ^ 12\<close> in absolute value the HP branch
  returns the value of the formula, and when the product is not negative the non-HP branch
  does so too; no error is signalled.
\<close>

theorem calc_stat_no_validation:
  assumes "\<bar>(2 * base + iv + ev div 4) * level\<bar> \<le> 10 ^ 12"
  shows "calc_stat base iv ev level nature_mult True
           = Inr ((2 * base + iv + ev div 4) * level div 100 + level + 10)
    \<and> (0 \<le> (2 * base + iv + ev div 4) * level \<longrightarrow>
          calc_stat base iv ev level float_1_0 False
            = Inr ((2 * base + iv + ev div 4) * level div 100 + 5)
        \<and> calc_stat base iv ev level float_1_1 False
            = Inr (11 * ((2 * base + iv + ev div 4) * level div 100 + 5) div 10)
        \<and> calc_stat base iv ev level float_0_9 False
            = Inr (9 * ((2 * base + iv + ev div 4) * level div 100 + 5) div 10))"
proof (intro conjI impI)
  show "calc_stat base iv ev level nature_mult True
           = Inr ((2 * base + iv + ev div 4) * level div 100 + level + 10)"
    using assms by (rule calc_stat_hp)
next
  assume n0: "0 \<le> (2 * base + iv + ev div 4) * level"
  with assms have n1: "(2 * base + iv + ev div 4) * level \<le> 10 ^ 12" by simp
  show "calc_stat base iv ev level float_1_0 False
            = Inr ((2 * base + iv + ev div 4) * level div 100 + 5)"
    using calc_stat_not_hp [OF n0 n1, of 10 float_1_0] float_mult_bounds(3,4) by simp
  show "calc_stat base iv ev level float_1_1 False
            = Inr (11 * ((2 * base + iv + ev div 4) * level div 100 + 5) div 10)"
    using calc_stat_not_hp [OF n0 n1, of 11 float_1_1] float_mult_bounds(5,6) by simp
  show "calc_stat base iv ev level float_0_9 False
            = Inr (9 * ((2 * base + iv + ev div 4) * level div 100 + 5) div 10)"
    using calc_stat_not_hp [OF n0 n1, of 9 float_0_9] float_mult_bounds(1,2) by simp
qed

theorem calc_stat_no_validation_witness:
  "calc_stat 100 32 256 101 float_1_0 True = Inr 409
   \<and> calc_stat 100 32 256 101 float_1_0 False = Inr 303
   \<and> calc_stat 100 32 256 101 float_1_1 False = Inr 333
   \<and> calc_stat 100 32 256 101 float_0_9 False = Inr 272"
  using calc_stat_no_validation [of 100 32 256 101 float_1_0] by simp

text \<open>With the level 101, outside the range from 1 to 100, a stat value is returned.\<close>

theorem calc_stat_level_101:
  "calc_stat 100 31 252 101 float_1_0 True = Inr 407"
  using calc_stat_hp [of 100 31 252 101 float_1_0] by simp

subsection \<open>Beyond the range of exact doubles\<close>

lemma rnd_even_near:
  assumes "\<bar>x - of_int m\<bar> < 1 / 2"
  shows "rnd_even x = m"
proof -
  have "\<bar>rat_of_int (rnd_even x) - x\<bar> \<le> 1 / 2" by (rule rnd_even_err)
  with assms have "\<bar>rat_of_int (rnd_even x) - of_int m\<bar> < 1" by linarith
  then have "\<bar>rat_of_int (rnd_even x - m)\<bar> < of_int 1" by simp
  then have "\<bar>rnd_even x - m\<bar> < 1" by (simp only: of_int_abs [symmetric] of_int_less_iff)
  then show ?thesis by simp
qed

lemma rnd_even_tie_odd:
  assumes "x = of_int f + 1 / 2" and "odd f"
  shows "rnd_even x = f + 1"
proof -
  have "\<lfloor>x\<rfloor> = f" by (rule floor_unique) (simp_all add: assms(1))
  with assms show ?thesis by (simp add: rnd_even_def)
qed

lemma fl_eval:
  assumes "2 powi e \<le> \<bar>q\<bar>" and "\<bar>q\<bar> < 2 powi (e + 1)" and "- 1022 \<le> e"
    and "rnd_even (q / 2 powi (e - 52)) = m"
  shows "fl q = (if 2 ^ 1024 \<le> \<bar>of_int m * 2 powi (e - 52) :: rat\<bar> then None
                 else Some (of_int m * 2 powi (e - 52)))"
proof -
  from assms(1,2) have e: "expo q = e" by (rule expo_unique)
  have "(0::rat) < 2 powi e" by simp
  with assms(1) have "0 < \<bar>q\<bar>" by linarith
  then have "q \<noteq> 0" by simp
  moreover have "max e (- 1022) = e" using assms(3) by simp
  ultimately show ?thesis by (simp add: fl_def ulp_def e assms(4))
qed

text \<open>
  With the base stat \<open>2 ^ 60\<close>, IV 0, EV 0, level 100 and the multiplier 1.0, \<open>inner\<close> is
  \<open>2 ^ 61 + 5\<close>, which no double holds: the code returns \<open>2 ^ 61\<close>, the exact formula
  \<open>2 ^ 61 + 5\<close>.
\<close>

theorem epsilon_harmless_counterexample:
  "calc_stat (2 ^ 60) 0 0 100 float_1_0 False = Inr (2 ^ 61)
   \<and> exact_stat (2 ^ 60) 0 0 100 1 False = 2 ^ 61 + 5"
proof
  have A: "fl 2305843009213693952 = Some 2305843009213693952"
    by (subst fl_eval [where e = 61 and m = 4503599627370496])
      (simp_all add: rnd_even_near)
  have B: "fl 2305843009213693957 = Some 2305843009213693952"
    by (subst fl_eval [where e = 61 and m = 4503599627370496])
      (simp_all add: rnd_even_near)
  have D: "fl (2305843009213693952 + float_1e_9) = Some 2305843009213693952"
    unfolding float_1e_9_def
    by (subst fl_eval [where e = 61 and m = 4503599627370496])
      (simp_all add: rnd_even_near)
  show "calc_stat (2 ^ 60) 0 0 100 float_1_0 False = Inr (2 ^ 61)"
    by (simp add: calc_stat_def true_div_def int_to_float_def float_mul_def float_add_def
        math_floor_def float_1_0_def A B D)
  have "exact_stat (2 ^ 60) 0 0 100 (of_int 10 / 10) False = 2 ^ 61 + 5"
    by (simp only: exact_stat_int if_False) simp
  then show "exact_stat (2 ^ 60) 0 0 100 1 False = 2 ^ 61 + 5" by simp
qed

subsection \<open>Overflow in the scan\<close>

lemma calc_stat_error: "calc_stat base iv ev level nature_mult is_hp = Inl e \<Longrightarrow> e = OverflowError"
  by (auto simp: calc_stat_def true_div_def int_to_float_def math_floor_def Let_def
      split: option.splits sum.splits if_splits)

lemma scan_pairs_error:
  "scan_pairs f obs ps acc = Inl e \<Longrightarrow> \<exists>(iv, ev) \<in> set ps. f iv ev = Inl e"
proof (induction ps arbitrary: acc)
  case Nil
  then show ?case by simp
next
  case (Cons p ps)
  obtain iv ev where p: "p = (iv, ev)" by (cases p)
  show ?case
  proof (cases "f iv ev")
    case (Inl e')
    with Cons.prems p show ?thesis by simp
  next
    case (Inr s)
    with Cons.prems p
    have "scan_pairs f obs ps (if s = obs then acc @ [(iv, ev)] else acc) = Inl e" by simp
    from Cons.IH [OF this] show ?thesis by auto
  qed
qed

lemma calc_stat_hp_of_fl:
  assumes "fl (of_int ((2 * base + iv + ev div 4) * level) / 100) = Some r"
  shows "calc_stat base iv ev level nature_mult True = Inr (\<lfloor>r\<rfloor> + level + 10)"
  using assms by (simp add: calc_stat_def true_div_def)

lemma calc_stat_of_fl_None:
  assumes "fl (of_int ((2 * base + iv + ev div 4) * level) / 100) = None"
  shows "calc_stat base iv ev level nature_mult is_hp = Inl OverflowError"
  using assms by (simp add: calc_stat_def true_div_def)

text \<open>
  The base stat \<open>2 ^ 1023 - 2 ^ 969 - 1\<close> at level 100: with IV 0 and EV 0 the quotient
  rounds to the largest double and the HP formula returns a value; with IV 0 and EV 8 the
  quotient \<open>2 ^ 1024 - 2 ^ 970\<close> rounds to \<open>2 ^ 1024\<close>, which is no double, and the division
  raises OverflowError, so the scan of the reverse calculation raises it.
\<close>

theorem reverse_round_trip_counterexample:
  "calc_stat (2 ^ 1023 - 2 ^ 969 - 1) 0 0 100 float_1_0 True = Inr (2 ^ 1024 - 2 ^ 971 + 110)
   \<and> reverse_calc_iv_ev_for_stat (2 ^ 1024 - 2 ^ 971 + 110) (2 ^ 1023 - 2 ^ 969 - 1) 100
         float_1_0 True 31 = Inl OverflowError"
proof
  let ?B = "2 ^ 1023 - 2 ^ 969 - 1 :: int"
  have A: "fl (2 ^ 1024 - 2 ^ 970 - 2) = Some (2 ^ 1024 - 2 ^ 971)"
    by (subst fl_eval [where e = 1023 and m = "2 ^ 53 - 1"])
      (simp_all add: rnd_even_near)
  have "rat_of_int ((2 * ?B + 0 + 0 div 4) * 100) / 100 = 2 ^ 1024 - 2 ^ 970 - 2" by simp
  with A have "fl (rat_of_int ((2 * ?B + 0 + 0 div 4) * 100) / 100) = Some (2 ^ 1024 - 2 ^ 971)"
    by (simp only:)
  from calc_stat_hp_of_fl [OF this, of float_1_0]
  show "calc_stat ?B 0 0 100 float_1_0 True = Inr (2 ^ 1024 - 2 ^ 971 + 110)" by simp
  have t: "rnd_even (18014398509481983 / 2) = 9007199254740992"
    using rnd_even_tie_odd [of "18014398509481983 / 2" 9007199254740991] by simp
  have N: "fl (2 ^ 1024 - 2 ^ 970) = None"
    by (subst fl_eval [where e = 1023 and m = 9007199254740992])
      (simp_all add: t)
  have "rat_of_int ((2 * ?B + 0 + 8 div 4) * 100) / 100 = 2 ^ 1024 - 2 ^ 970" by simp
  with N have "fl (rat_of_int ((2 * ?B + 0 + 8 div 4) * 100) / 100) = None" by (simp only:)
  then have err: "calc_stat ?B 0 8 100 float_1_0 True = Inl OverflowError"
    by (rule calc_stat_of_fl_None)
  let ?f = "\<lambda>iv ev. calc_stat ?B iv ev 100 float_1_0 True"
  let ?ps = "List.product [0..31] ev_range"
  have "8 \<in> set ev_range" by (simp add: ev_range_iff)
  then have "(0, 8) \<in> set ?ps" by (simp only: mem_product_range) simp
  from scan_pairs_fails [of 0 8 ?ps ?f, OF this err]
  obtain e' where e': "scan_pairs ?f (2 ^ 1024 - 2 ^ 971 + 110) ?ps [] = Inl e'" by blast
  from scan_pairs_error [OF this] calc_stat_error have "e' = OverflowError" by blast
  with e' show "reverse_calc_iv_ev_for_stat (2 ^ 1024 - 2 ^ 971 + 110) ?B 100 float_1_0 True 31
      = Inl OverflowError"
    by (simp only: reverse_calc_iv_ev_for_stat_def sum.case)
qed

subsection \<open>The float literals\<close>

text \<open>The three literals are the doubles nearest to the decimals they are written as.\<close>

lemma float_literals:
  "fl (9 / 10) = Some float_0_9" "fl 1 = Some float_1_0" "fl (11 / 10) = Some float_1_1"
  "fl (1 / 10 ^ 9) = Some float_1e_9"
proof -
  show "fl (9 / 10) = Some float_0_9"
    unfolding float_0_9_def
    by (subst fl_eval [where e = "- 1" and m = 8106479329266893])
      (simp_all add: rnd_even_near power_int_minus_divide)
  show "fl 1 = Some float_1_0"
    using fl_of_int [of 1] by (simp add: float_1_0_def)
  show "fl (11 / 10) = Some float_1_1"
    unfolding float_1_1_def
    by (subst fl_eval [where e = 0 and m = 4953959590107546])
      (simp_all add: rnd_even_near power_int_minus_divide)
  show "fl (1 / 10 ^ 9) = Some float_1e_9"
    unfolding float_1e_9_def
    by (subst fl_eval [where e = "- 30" and m = 4835703278458517])
      (simp_all add: rnd_even_near power_int_minus_divide)
qed

subsection \<open>Unknown natures\<close>

text \<open>
  Claim C10. A nature that is not a key of the nature-effect table (a neutral or misspelled
  name, the empty string) and the absent nature \<open>None\<close> give the multiplier \<open>1.0\<close> for
  every stat key: nothing is rejected or signalled.
\<close>

theorem unknown_nature_is_neutral:
  "(nature = None \<or> (\<exists>n. nature = Some n \<and> n \<notin> fst ` set NATURE_EFFECTS))
    \<Longrightarrow> get_nature_multiplier nature stat_key = float_1_0"
proof (cases nature)
  case None
  then show ?thesis by (simp add: get_nature_multiplier_def)
next
  case (Some n)
  assume "nature = None \<or> (\<exists>n. nature = Some n \<and> n \<notin> fst ` set NATURE_EFFECTS)"
  with Some have "n \<notin> fst ` set NATURE_EFFECTS" by simp
  then have "map_of NATURE_EFFECTS n = None" by (simp add: map_of_eq_None_iff)
  with Some show ?thesis by (simp add: get_nature_multiplier_def)
qed

theorem unknown_nature_is_neutral_witness:
  "get_nature_multiplier (Some ''Jolli'') ''spe'' = float_1_0
   \<and> get_nature_multiplier (Some ''Jolly'') ''spe'' = float_1_1"
proof -
  have "''Jolli'' \<notin> fst ` set NATURE_EFFECTS"
    by (simp add: NATURE_EFFECTS_def)
  then have "get_nature_multiplier (Some ''Jolli'') ''spe'' = float_1_0"
    using unknown_nature_is_neutral [of "Some ''Jolli''" "''spe''"] by simp
  moreover have "get_nature_multiplier (Some ''Jolly'') ''spe'' = float_1_1"
    by (simp add: get_nature_multiplier_def NATURE_EFFECTS_def)
  ultimately show ?thesis by simp
qed

subsection \<open>EV budget\<close>

lemma find_max_spec:
  "find_max evs (st, mx) = (st', mx') \<Longrightarrow>
     (\<forall>(k, v) \<in> set evs. v \<le> mx') \<and> mx \<le> mx' \<and>
     ((st', mx') = (st, mx) \<or> (\<exists>k. st' = Some k \<and> (k, mx') \<in> set evs \<and> mx < mx'))"
proof (induction evs arbitrary: st mx)
  case Nil
  then show ?case by simp
next
  case (Cons a evs)
  obtain s v where a: "a = (s, v)" by (cases a)
  show ?case
  proof (cases "mx < v")
    case True
    with Cons.prems a have "find_max evs (Some s, v) = (st', mx')" by simp
    from Cons.IH [OF this] True a show ?thesis by fastforce
  next
    case False
    with Cons.prems a have "find_max evs (st, mx) = (st', mx')" by simp
    from Cons.IH [OF this] False a show ?thesis by fastforce
  qed
qed

lemma sum_list_update:
  fixes evs :: "(string \<times> int) list"
  shows "distinct (map fst evs) \<Longrightarrow> (k, v) \<in> set evs \<Longrightarrow>
     sum_list (map snd (AList.update k w evs)) = sum_list (map snd evs) - v + w"
proof (induction evs)
  case Nil
  then show ?case by simp
next
  case (Cons a evs)
  then show ?case by (cases a) (auto simp: rev_image_eqI)
qed

lemma ev_below_refl: "ev_below evs evs"
  by (simp add: ev_below_def)

lemma ev_below_trans:
  assumes "ev_below a b" and "ev_below b c"
  shows "ev_below a c"
  unfolding ev_below_def
proof (intro conjI allI impI)
  from assms show "map fst a = map fst c" by (simp add: ev_below_def)
  fix k v assume "map_of c k = Some v"
  with assms(2) obtain v1 where v1: "map_of b k = Some v1" "v1 \<le> v"
    unfolding ev_below_def by blast
  with assms(1) obtain v2 where "map_of a k = Some v2" "v2 \<le> v1"
    unfolding ev_below_def by blast
  with v1 show "\<exists>v'. map_of a k = Some v' \<and> v' \<le> v" by auto
qed

lemma sum_nonpos:
  "\<forall>(k, v) \<in> set evs. v \<le> (0::int) \<Longrightarrow> sum_list (map snd evs) \<le> 0"
  by (induction evs) auto

lemma step_ok:
  assumes ok: "ev_ok evs" and mem: "(s, mx) \<in> set evs" and pos: "0 < mx"
  shows "ev_ok (AList.update s (max 0 (the (map_of evs s) - 4)) evs)"
    and "ev_below (AList.update s (max 0 (the (map_of evs s) - 4)) evs) evs"
    and "sum_list (map snd (AList.update s (max 0 (the (map_of evs s) - 4)) evs))
          = sum_list (map snd evs) - 4"
proof -
  from ok have d: "distinct (map fst evs)" by (simp add: ev_ok_def)
  from d mem have look: "map_of evs s = Some mx" by simp
  from ok mem have "0 \<le> mx \<and> 4 dvd mx" by (auto simp: ev_ok_def)
  with pos have ge: "4 \<le> mx" by (auto elim!: dvdE)
  have dv: "4 dvd mx - 4" using \<open>0 \<le> mx \<and> 4 dvd mx\<close> by simp
  let ?e = "AList.update s (max 0 (the (map_of evs s) - 4)) evs"
  have e: "?e = AList.update s (mx - 4) evs" using look ge by simp
  from mem have key: "s \<in> fst ` set evs" by (rule rev_image_eqI) simp
  have keys: "map fst ?e = map fst evs" using key by (simp add: update_keys)
  have mo: "map_of ?e = (map_of evs)(s \<mapsto> mx - 4)" unfolding e by (simp add: update_conv')
  show "ev_ok ?e"
    unfolding ev_ok_def
  proof (intro conjI ballI)
    show "distinct (map fst ?e)" using keys d by simp
    fix p assume p: "p \<in> set ?e"
    obtain k v where kv: "p = (k, v)" by (cases p)
    from p kv keys d have "map_of ?e k = Some v" by simp
    then have "(if k = s then Some (mx - 4) else map_of evs k) = Some v" by (simp add: mo)
    then have "0 \<le> v \<and> 4 dvd v"
      using ge dv ok by (auto simp: ev_ok_def split: if_splits dest!: map_of_SomeD)
    then show "case p of (k, v) \<Rightarrow> 0 \<le> v \<and> 4 dvd v" by (simp add: kv)
  qed
  show "ev_below ?e evs"
    unfolding ev_below_def
  proof (intro conjI allI impI)
    show "map fst ?e = map fst evs" by (rule keys)
    fix k v assume kv: "map_of evs k = Some v"
    show "\<exists>v'. map_of ?e k = Some v' \<and> v' \<le> v"
    proof (cases "k = s")
      case True
      with kv look have "v = mx" by simp
      with True show ?thesis by (simp only: mo) simp
    next
      case False
      with kv show ?thesis by (simp only: mo) simp
    qed
  qed
  show "sum_list (map snd ?e) = sum_list (map snd evs) - 4"
    unfolding e using sum_list_update [OF d mem, of "mx - 4"] by simp
qed

lemma clamp_loop_inv:
  "ev_ok evs \<Longrightarrow> tot = sum_list (map snd evs) \<Longrightarrow>
     ev_ok (clamp_loop evs tot) \<and> ev_below (clamp_loop evs tot) evs
     \<and> sum_list (map snd (clamp_loop evs tot)) \<le> 510"
proof (induction evs tot rule: clamp_loop.induct)
  case (1 evs tot)
  show ?case
  proof (cases "510 < tot")
    case False
    with "1.prems" show ?thesis by (simp add: ev_below_refl clamp_loop.simps)
  next
    case True
    obtain st mx where fm: "find_max evs (None, 0) = (st, mx)" by (cases "find_max evs (None, 0)")
    note spec = find_max_spec [OF fm]
    show ?thesis
    proof (cases "st = None \<or> mx \<le> 0")
      case True
      with spec have "\<forall>(k, v) \<in> set evs. v \<le> 0" by auto
      then have "sum_list (map snd evs) \<le> 0" by (rule sum_nonpos)
      with \<open>510 < tot\<close> "1.prems" show ?thesis by simp
    next
      case False
      then obtain s where s: "st = Some s" and pos: "0 < mx" by auto
      with spec have mem: "(s, mx) \<in> set evs" by auto
      let ?e = "AList.update s (max 0 (the (map_of evs s) - 4)) evs"
      note st = step_ok [OF "1.prems"(1) mem pos]
      have unf: "clamp_loop evs tot = clamp_loop ?e (tot - 4)"
        using True fm s pos by (subst clamp_loop.simps) simp
      have "ev_ok (clamp_loop ?e (tot - 4)) \<and> ev_below (clamp_loop ?e (tot - 4)) ?e
            \<and> sum_list (map snd (clamp_loop ?e (tot - 4))) \<le> 510"
        using "1.IH" [OF True fm [symmetric] s] pos st "1.prems" by simp
      with st(2) unf show ?thesis by (auto intro: ev_below_trans)
    qed
  qed
qed

text \<open>
  Claim C3. For a dict with non-negative multiples of 4 as values (its keys distinct, as in
  every dict; the six stat keys are one instance), the output of \<open>clamp_ev_distribution\<close>
  has the same keys in the same order, its values sum to at most 510, and each value is a
  non-negative multiple of 4 no greater than the input value of the same key.
\<close>

theorem clamp_budget_invariant:
  assumes "distinct (map fst evs)" and "\<forall>(k, v) \<in> set evs. 0 \<le> v \<and> 4 dvd v"
  shows "sum_list (map snd (clamp_ev_distribution evs)) \<le> 510
    \<and> map fst (clamp_ev_distribution evs) = map fst evs
    \<and> (\<forall>(k, v') \<in> set (clamp_ev_distribution evs).
          0 \<le> v' \<and> 4 dvd v' \<and> (\<exists>v. (k, v) \<in> set evs \<and> v' \<le> v))"
proof (cases "sum_list (map snd evs) \<le> 510")
  case True
  with assms show ?thesis by (auto simp: clamp_ev_distribution_def)
next
  case False
  then have c: "clamp_ev_distribution evs = clamp_loop evs (sum_list (map snd evs))"
    by (simp add: clamp_ev_distribution_def)
  from assms have ok: "ev_ok evs" by (simp add: ev_ok_def)
  note inv = clamp_loop_inv [OF ok refl]
  let ?out = "clamp_loop evs (sum_list (map snd evs))"
  from inv have keys: "map fst ?out = map fst evs" by (simp add: ev_below_def)
  have "\<forall>(k, v') \<in> set ?out. 0 \<le> v' \<and> 4 dvd v' \<and> (\<exists>v. (k, v) \<in> set evs \<and> v' \<le> v)"
  proof (intro ballI)
    fix p assume p: "p \<in> set ?out"
    obtain k v' where kv: "p = (k, v')" by (cases p)
    from inv p kv have a: "0 \<le> v' \<and> 4 dvd v'" by (auto simp: ev_ok_def)
    from inv have d: "distinct (map fst ?out)" by (simp add: ev_ok_def)
    from d p kv have l: "map_of ?out k = Some v'" by simp
    from p kv have "k \<in> set (map fst ?out)" by force
    with keys have kin: "k \<in> set (map fst evs)" by simp
    then obtain v where v: "map_of evs k = Some v"
      by (metis map_of_eq_None_iff not_Some_eq set_map)
    with inv obtain w where "map_of ?out k = Some w" "w \<le> v" unfolding ev_below_def by blast
    with l have "v' \<le> v" by simp
    moreover from v have "(k, v) \<in> set evs" by (rule map_of_SomeD)
    ultimately show "case p of (k, v') \<Rightarrow> 0 \<le> v' \<and> 4 dvd v' \<and> (\<exists>v. (k, v) \<in> set evs \<and> v' \<le> v)"
      using a kv by auto
  qed
  with inv keys c show ?thesis by simp
qed

text \<open>
  The stat picked by the inner loop is the first one, in dict order, that holds the greatest
  value, provided that value is positive.
\<close>

lemma find_max_first:
  "find_max evs (st, m0) = (st', mx) \<Longrightarrow>
     ((st', mx) = (st, m0) \<and> (\<forall>(k, v) \<in> set evs. v \<le> m0))
     \<or> (\<exists>s pre post. st' = Some s \<and> evs = pre @ (s, mx) # post \<and> m0 < mx
           \<and> (\<forall>(k, v) \<in> set pre. v < mx) \<and> (\<forall>(k, v) \<in> set post. v \<le> mx))"
proof (induction evs arbitrary: st m0)
  case Nil
  then show ?case by simp
next
  case (Cons a evs)
  obtain s v where a: "a = (s, v)" by (cases a)
  show ?case
  proof (cases "m0 < v")
    case True
    with Cons.prems a have "find_max evs (Some s, v) = (st', mx)" by simp
    from Cons.IH [OF this] show ?thesis
    proof (elim disjE conjE exE)
      assume "(st', mx) = (Some s, v)" "\<forall>(k, v') \<in> set evs. v' \<le> v"
      then have "st' = Some s \<and> a # evs = [] @ (s, mx) # evs \<and> m0 < mx
           \<and> (\<forall>(k, v) \<in> set []. v < mx) \<and> (\<forall>(k, v) \<in> set evs. v \<le> mx)"
        using True a by auto
      then show ?thesis by blast
    next
      fix s' pre post
      assume "st' = Some s'" "evs = pre @ (s', mx) # post" "v < mx"
        "\<forall>(k, v) \<in> set pre. v < mx" "\<forall>(k, v) \<in> set post. v \<le> mx"
      then have "st' = Some s' \<and> a # evs = (a # pre) @ (s', mx) # post \<and> m0 < mx
           \<and> (\<forall>(k, v) \<in> set (a # pre). v < mx) \<and> (\<forall>(k, v) \<in> set post. v \<le> mx)"
        using True a by auto
      then show ?thesis by blast
    qed
  next
    case False
    with Cons.prems a have "find_max evs (st, m0) = (st', mx)" by simp
    from Cons.IH [OF this] show ?thesis
    proof (elim disjE conjE exE)
      assume "(st', mx) = (st, m0)" "\<forall>(k, v') \<in> set evs. v' \<le> m0"
      then show ?thesis using False a by auto
    next
      fix s' pre post
      assume "st' = Some s'" "evs = pre @ (s', mx) # post" "m0 < mx"
        "\<forall>(k, v) \<in> set pre. v < mx" "\<forall>(k, v) \<in> set post. v \<le> mx"
      then have "st' = Some s' \<and> a # evs = (a # pre) @ (s', mx) # post \<and> m0 < mx
           \<and> (\<forall>(k, v) \<in> set (a # pre). v < mx) \<and> (\<forall>(k, v) \<in> set post. v \<le> mx)"
        using False a by auto
      then show ?thesis by blast
    qed
  qed
qed

text \<open>
  Claim C4, as amended. On the dict \<open>hp 0, atk 252, def 0, spa 252, spd 0, spe 252\<close>
  (total 756) the first stat reduced is \<open>atk\<close>, the first of the three maxima in dict
  order (\<open>find_max_first\<close> states this rule for every dict), and the result is
  \<open>atk 168, spa 168, spe 172\<close>, which sums to 508: the loop takes 4 at a time and stops at
  the first total that is at most 510.
\<close>

theorem clamp_scenario_508:
  "clamp_ev_distribution
     [(''hp'', 0), (''atk'', 252), (''def'', 0), (''spa'', 252), (''spd'', 0), (''spe'', 252)]
   = [(''hp'', 0), (''atk'', 168), (''def'', 0), (''spa'', 168), (''spd'', 0), (''spe'', 172)]
   \<and> sum_list (map snd (clamp_ev_distribution
     [(''hp'', 0), (''atk'', 252), (''def'', 0), (''spa'', 252), (''spd'', 0), (''spe'', 252)]))
     = 508
   \<and> find_max
     [(''hp'', 0), (''atk'', 252), (''def'', 0), (''spa'', 252), (''spd'', 0), (''spe'', 252)]
     (None, 0) = (Some ''atk'', 252)"
  by (simp add: clamp_ev_distribution_def clamp_loop.simps)

text \<open>The total of that result is not 510.\<close>

theorem clamp_scenario_not_510:
  "sum_list (map snd (clamp_ev_distribution
     [(''hp'', 0), (''atk'', 252), (''def'', 0), (''spa'', 252), (''spd'', 0), (''spe'', 252)]))
   \<noteq> 510"
  by (simp add: clamp_ev_distribution_def clamp_loop.simps)

theorem clamp_budget_invariant_witness:
  "sum_list (map snd (clamp_ev_distribution
      [(''hp'', 252), (''atk'', 252), (''def'', 4), (''spa'', 0), (''spd'', 0), (''spe'', 8)]))
     \<le> 510
   \<and> clamp_ev_distribution
      [(''hp'', 252), (''atk'', 252), (''def'', 4), (''spa'', 0), (''spd'', 0), (''spe'', 8)]
     = [(''hp'', 248), (''atk'', 248), (''def'', 4), (''spa'', 0), (''spd'', 0), (''spe'', 8)]"
proof -
  let ?evs = "[(''hp'', 252), (''atk'', 252), (''def'', 4), (''spa'', 0), (''spd'', 0),
    (''spe'', 8::int)]"
  have d: "distinct (map fst ?evs)" by simp
  have v: "\<forall>(k, v) \<in> set ?evs. 0 \<le> v \<and> 4 dvd v" by simp
  have "sum_list (map snd (clamp_ev_distribution ?evs)) \<le> 510"
    using clamp_budget_invariant [OF d v] by blast
  moreover have "clamp_ev_distribution ?evs
     = [(''hp'', 248), (''atk'', 248), (''def'', 4), (''spa'', 0), (''spd'', 0), (''spe'', 8)]"
    by (simp add: clamp_ev_distribution_def clamp_loop.simps)
  ultimately show ?thesis by simp
qed

subsection \<open>Validation and autocorrect\<close>

lemma char_lit:
  "char_of (n::nat) = c \<longleftrightarrow> take_bit 8 n = of_char c"
  "c = char_of (n::nat) \<longleftrightarrow> take_bit 8 n = of_char c"
  using char_of_eq_iff [of n c] by auto

lemmas ascii_eval =
  ascii_methods_def title_case_showdown_def ascii_strip_def ascii_isspace_def
  ascii_replace_underscores_def ascii_lower_def ascii_lower_char_def ascii_title_def
  ascii_iscased_def ascii_upper_char_def char_lit

text \<open>The dict comprehension maps a key to the last entry of the list that has it.\<close>

lemma low_map_lookup:
  "fold (\<lambda>v m. m(f v \<mapsto> v)) vs m0 k =
     (case filter (\<lambda>v. f v = k) vs of [] \<Rightarrow> m0 k | x # xs \<Rightarrow> Some (last (x # xs)))"
  by (induction vs rule: rev_induct) (auto split: list.splits)

lemma low_map_hit:
  assumes "c \<in> set valid_list" and "f c = k"
  shows "fold (\<lambda>v m. m(f v \<mapsto> v)) valid_list Map.empty k
           = Some (last (filter (\<lambda>v. f v = k) valid_list))"
proof -
  from assms have "c \<in> set (filter (\<lambda>v. f v = k) valid_list)" by simp
  then have "filter (\<lambda>v. f v = k) valid_list \<noteq> []" by (metis empty_iff empty_set)
  then show ?thesis by (simp add: low_map_lookup split: list.splits)
qed

lemma low_map_miss:
  assumes "\<forall>v \<in> set valid_list. f v \<noteq> k"
  shows "fold (\<lambda>v m. m(f v \<mapsto> v)) valid_list Map.empty k = None"
proof -
  from assms have "filter (\<lambda>v. f v = k) valid_list = []" by (simp add: filter_empty_conv)
  then show ?thesis by (simp add: low_map_lookup)
qed

text \<open>
  Claim C6, as amended. When the raw input, normalised as the code does it (trimmed,
  underscores replaced by spaces, trimmed again), equals a canonical entry \<open>c\<close> ignoring
  case, \<open>validate_input\<close> returns, whatever the autocorrect mode, the fuzzy matcher and the
  user's answers, the last entry of the canonical list that equals \<open>c\<close> ignoring case; that
  is \<open>c\<close> itself when no other entry of the list equals \<open>c\<close> ignoring case. The empty input
  is returned as it is. This holds for any \<open>str\<close> methods.
\<close>

theorem resolution_identity:
  assumes c: "c \<in> set valid_list"
    and eq: "py_lower M c
               = py_lower M (py_strip M (py_replace_underscores M (py_strip M raw)))"
  shows "validate_input M get_close_matches raw valid_list autocorrect_mode answers
           = Inr (if raw = [] then raw
                  else last (filter (\<lambda>v. py_lower M v = py_lower M c) valid_list))
    \<and> last (filter (\<lambda>v. py_lower M v = py_lower M c) valid_list) \<in> set valid_list
    \<and> py_lower M (last (filter (\<lambda>v. py_lower M v = py_lower M c) valid_list)) = py_lower M c
    \<and> ((\<forall>v \<in> set valid_list. py_lower M v = py_lower M c \<longrightarrow> v = c)
          \<longrightarrow> last (filter (\<lambda>v. py_lower M v = py_lower M c) valid_list) = c)"
proof -
  let ?k = "py_lower M c"
  let ?c' = "last (filter (\<lambda>v. py_lower M v = ?k) valid_list)"
  from c have "c \<in> set (filter (\<lambda>v. py_lower M v = ?k) valid_list)" by simp
  then have ne: "filter (\<lambda>v. py_lower M v = ?k) valid_list \<noteq> []" by (metis empty_iff empty_set)
  then have "?c' \<in> set (filter (\<lambda>v. py_lower M v = ?k) valid_list)" by (rule last_in_set)
  then have m: "?c' \<in> set valid_list" "py_lower M ?c' = ?k" by simp_all
  have "validate_input M get_close_matches raw valid_list autocorrect_mode answers
          = Inr (if raw = [] then raw else ?c')"
  proof (cases "raw = []")
    case True
    then show ?thesis by (simp add: validate_input_def)
  next
    case False
    from low_map_hit [OF c refl, of "py_lower M"]
    have "fold (\<lambda>v m. m(py_lower M v \<mapsto> v)) valid_list Map.empty ?k = Some ?c'" .
    with False eq show ?thesis by (simp add: validate_input_def Let_def)
  qed
  with m show ?thesis by auto
qed

theorem resolution_identity_witness:
  "\<forall>get_close_matches.
     validate_input ascii_methods get_close_matches '' jolly_ '' [''Hasty'', ''Jolly''] 1 []
       = Inr ''Jolly''"
proof
  fix get_close_matches :: "string \<Rightarrow> string list \<Rightarrow> string list"
  have c: "''Jolly'' \<in> set [''Hasty'', ''Jolly'']" by simp
  have eq: "py_lower ascii_methods ''Jolly''
      = py_lower ascii_methods (py_strip ascii_methods
          (py_replace_underscores ascii_methods (py_strip ascii_methods '' jolly_ '')))"
    by (simp add: ascii_eval)
  have l: "last (filter (\<lambda>v. py_lower ascii_methods v = py_lower ascii_methods ''Jolly'')
              [''Hasty'', ''Jolly'']) = ''Jolly''"
    by (simp add: ascii_eval)
  from resolution_identity [OF c eq, of get_close_matches 1 "[]"] l
  show "validate_input ascii_methods get_close_matches '' jolly_ '' [''Hasty'', ''Jolly''] 1 []
      = Inr ''Jolly''"
    by simp
qed

text \<open>
  Against the list \<open>[Jolly, JOLLY]\<close> the input \<open>Jolly\<close>, itself an entry of the list, is
  not returned: the dict comprehension keeps the last entry with the key \<open>jolly\<close>, and the
  result is \<open>JOLLY\<close> in every mode.
\<close>

theorem resolution_identity_counterexample:
  "\<not> (\<forall>get_close_matches autocorrect_mode answers.
        validate_input ascii_methods get_close_matches ''Jolly'' [''Jolly'', ''JOLLY'']
          autocorrect_mode answers = Inr ''Jolly'')"
proof
  assume "\<forall>get_close_matches autocorrect_mode answers.
        validate_input ascii_methods get_close_matches ''Jolly'' [''Jolly'', ''JOLLY'']
          autocorrect_mode answers = Inr ''Jolly''"
  then have "validate_input ascii_methods (\<lambda>t vs. []) ''Jolly'' [''Jolly'', ''JOLLY''] 3 []
      = Inr ''Jolly''"
    by blast
  moreover have "validate_input ascii_methods (\<lambda>t vs. []) ''Jolly'' [''Jolly'', ''JOLLY''] 3 []
      = Inr ''JOLLY''"
    by (simp add: validate_input_def ascii_eval)
  ultimately show False by simp
qed

text \<open>
  Claim C5, as amended. With autocorrect off (mode 3), an input that neither equals a
  canonical entry ignoring case, once normalised, nor has its title-cased form in the
  canonical list is returned trimmed and otherwise unchanged (the empty input as it is),
  whatever candidates the fuzzy and substring layers produce. This holds for any \<open>str\<close>
  methods.
\<close>

theorem off_policy_unmatched:
  assumes "\<forall>v \<in> set valid_list.
      py_lower M v \<noteq> py_lower M (py_strip M (py_replace_underscores M (py_strip M raw)))"
    and "title_case_showdown M (py_strip M (py_replace_underscores M (py_strip M raw)))
           \<notin> set valid_list"
  shows "validate_input M get_close_matches raw valid_list 3 answers
           = Inr (if raw = [] then raw else py_strip M raw)"
proof (cases "raw = []")
  case True
  then show ?thesis by (simp add: validate_input_def)
next
  case False
  let ?u = "py_strip M (py_replace_underscores M (py_strip M raw))"
  have miss: "fold (\<lambda>v m. m(py_lower M v \<mapsto> v)) valid_list Map.empty (py_lower M ?u) = None"
    using assms(1) by (rule low_map_miss)
  with False assms(2) show ?thesis by (simp add: validate_input_def Let_def)
qed

theorem off_policy_unmatched_witness:
  "\<forall>get_close_matches.
     validate_input ascii_methods get_close_matches '' jolli'' [''Jolly'', ''Hasty''] 3 []
       = Inr ''jolli''"
proof
  fix get_close_matches :: "string \<Rightarrow> string list \<Rightarrow> string list"
  let ?u = "py_strip ascii_methods (py_replace_underscores ascii_methods
              (py_strip ascii_methods '' jolli''))"
  have s: "py_strip ascii_methods '' jolli'' = ''jolli''" by (simp add: ascii_eval)
  have a: "\<forall>v \<in> set [''Jolly'', ''Hasty'']. py_lower ascii_methods v \<noteq> py_lower ascii_methods ?u"
    by (simp add: ascii_eval)
  have b: "title_case_showdown ascii_methods ?u \<notin> set [''Jolly'', ''Hasty'']"
    by (simp add: ascii_eval)
  from off_policy_unmatched [OF a b, of get_close_matches "[]"] s
  show "validate_input ascii_methods get_close_matches '' jolli'' [''Jolly'', ''Hasty''] 3 []
      = Inr ''jolli''"
    by simp
qed

text \<open>
  With autocorrect off, the input \<open>jolly\<close> against the list \<open>[Jolly]\<close> is not returned
  unchanged: the case-insensitive layer returns \<open>Jolly\<close> before the mode is looked at.
\<close>

theorem off_policy_counterexample:
  "\<not> (\<forall>get_close_matches answers.
        validate_input ascii_methods get_close_matches ''jolly'' [''Jolly''] 3 answers
          = Inr (py_strip ascii_methods ''jolly''))"
proof
  assume "\<forall>get_close_matches answers.
        validate_input ascii_methods get_close_matches ''jolly'' [''Jolly''] 3 answers
          = Inr (py_strip ascii_methods ''jolly'')"
  then have "validate_input ascii_methods (\<lambda>t vs. []) ''jolly'' [''Jolly''] 3 []
      = Inr (py_strip ascii_methods ''jolly'')"
    by blast
  then show False by (simp add: validate_input_def ascii_eval)
qed

end
